theory Spec2Isabelle
  imports Main
begin

section \<open>The world the handlers act on\<close>

text \<open>
  The HTTP handlers of the disk service talk to three collaborators: the etcd client
  (\<open>etcdcli.Get\<close>, \<open>etcdcli.Put\<close>), the hypervisor control channel (\<open>wrapper.Exec\<close>) and
  the iris request context together with the standard logger. Every call to one of them
  is recorded, in program order, as an event of the trace.
\<close>

datatype event =
    Exec string string        \<comment> \<open>\<open>wrapper.Exec(node, command)\<close>\<close>
  | EtcdGet string            \<comment> \<open>\<open>etcdcli.Get(c, key)\<close>\<close>
  | EtcdPut string string     \<comment> \<open>\<open>etcdcli.Put(c, key, value)\<close>\<close>
  | StatusCode nat            \<comment> \<open>\<open>ctx.StatusCode(n)\<close>\<close>
  | JSON string               \<comment> \<open>\<open>ctx.JSON(iris.Map{"message": m})\<close>\<close>
  | Write string              \<comment> \<open>\<open>ctx.Write(bytes)\<close>\<close>
  | Log string                \<comment> \<open>one line on the standard logger\<close>

record world =
  kv :: "string \<rightharpoonup> string"     \<comment> \<open>the contents of the etcd store\<close>
  trace :: "event list"          \<comment> \<open>what has been done so far, oldest first\<close>

text \<open>
  What the collaborators answer is not decided by the handlers (\<open>wrapper.Exec\<close> and the
  etcd client are not among the sources at hand). It is a parameter: each answer may
  depend on everything that happened before the call (the trace) and on the arguments.
  An error is \<open>Some message\<close>, Go's \<open>nil\<close> error is \<open>None\<close>. The result of \<open>etcdcli.Put\<close> is
  dropped by every caller, so all that matters of it is whether the write took effect.
  A handler is modelled running alone: nobody else changes the store between two of its
  requests (the section on concurrent calls lifts this for \<open>NextID\<close>).
\<close>

record env =
  exec_err :: "event list \<Rightarrow> string \<Rightarrow> string \<Rightarrow> string option"
  get_err :: "event list \<Rightarrow> string \<Rightarrow> string option"
  put_ok :: "event list \<Rightarrow> string \<Rightarrow> string \<Rightarrow> bool"

text \<open>How a handler can stop other than by returning.\<close>

datatype panic =
    PanicErr string      \<comment> \<open>\<open>panic(err)\<close>\<close>
  | LogPanic string      \<comment> \<open>\<open>log.Panicln\<close>: the line is logged, then raised\<close>
  | NilDeref             \<comment> \<open>a method called on a nil \<open>error\<close>\<close>
  | IndexOutOfRange      \<comment> \<open>\<open>r.Kvs[0]\<close> on an empty answer\<close>

datatype 'a res = Ok 'a | Panic panic

definition emit :: "event \<Rightarrow> world \<Rightarrow> world" where
  "emit ev w = w\<lparr>trace := trace w @ [ev]\<rparr>"

definition wrapper_Exec :: "env \<Rightarrow> string \<Rightarrow> string \<Rightarrow> world \<Rightarrow> string option \<times> world" where
  "wrapper_Exec e node cmd w = (exec_err e (trace w) node cmd, emit (Exec node cmd) w)"

text \<open>
  \<open>etcdcli.Get\<close> of a single key: an error, or the answer \<open>r\<close>, where \<open>r.Count = 0\<close> is
  \<open>None\<close> and otherwise \<open>r.Kvs[0].Value\<close> is the stored value.
\<close>

definition etcd_Get :: "env \<Rightarrow> string \<Rightarrow> world \<Rightarrow> (string + string option) \<times> world" where
  "etcd_Get e k w =
     (case get_err e (trace w) k of
        Some m \<Rightarrow> (Inl m, emit (EtcdGet k) w)
      | None \<Rightarrow> (Inr (kv w k), emit (EtcdGet k) w))"

definition etcd_Put :: "env \<Rightarrow> string \<Rightarrow> string \<Rightarrow> world \<Rightarrow> world" where
  "etcd_Put e k v w =
     (if put_ok e (trace w) k v
      then emit (EtcdPut k v) (w\<lparr>kv := (kv w)(k \<mapsto> v)\<rparr>)
      else emit (EtcdPut k v) w)"

definition ctx_StatusCode :: "nat \<Rightarrow> world \<Rightarrow> world" where
  "ctx_StatusCode n = emit (StatusCode n)"

definition ctx_JSON :: "string \<Rightarrow> world \<Rightarrow> world" where
  "ctx_JSON m = emit (JSON m)"

definition ctx_Write :: "string \<Rightarrow> world \<Rightarrow> world" where
  "ctx_Write b = emit (Write b)"

definition log_Println :: "string \<Rightarrow> world \<Rightarrow> world" where
  "log_Println m = emit (Log m)"

text \<open>What the client receives: the last status set (200 when none was) and the bytes written.\<close>

definition response_status :: "event list \<Rightarrow> nat" where
  "response_status evs = foldl (\<lambda>s ev. case ev of StatusCode n \<Rightarrow> n | _ \<Rightarrow> s) 200 evs"

fun response_body :: "event list \<Rightarrow> string" where
  "response_body [] = []"
| "response_body (Write b # evs) = b @ response_body evs"
| "response_body (ev # evs) = response_body evs"

definition diskRoot :: string where
  "diskRoot = ''/fs/trust/vm/csi/''"

section \<open>The device path handler\<close>

text \<open>\<open>app.Get("/dev-path/{name:string}")\<close>.\<close>

definition dev_path :: "env \<Rightarrow> string \<Rightarrow> world \<Rightarrow> unit res \<times> world" where
  "dev_path e name w =
     (case etcd_Get e (''/xiaomakai/'' @ name) w of
        (Inl m, w1) \<Rightarrow> (Panic (PanicErr m), w1)
      | (Inr None, w1) \<Rightarrow>
          (let message = ''volume '' @ name @ '' not found! not published yet?'' in
           (Ok (), log_Println message (ctx_JSON message (ctx_StatusCode 500 w1))))
      | (Inr (Some v), w1) \<Rightarrow>
          (Ok (), ctx_Write v (ctx_Write ''/dev/disk/by-id/virtio-'' w1)))"

section \<open>Unpublish\<close>

text \<open>\<open>app.Delete("/disk/{name:string}/publish/{node:string}")\<close>. The handler has no panic.\<close>

definition unpublish :: "env \<Rightarrow> string \<Rightarrow> string \<Rightarrow> world \<Rightarrow> world" where
  "unpublish e name node w =
     (case wrapper_Exec e node (''device_del '' @ name) w of
        (None, w1) \<Rightarrow> w1
      | (Some m1, w1) \<Rightarrow>
          (case wrapper_Exec e node (''drive_del '' @ name) w1 of
             (None, w2) \<Rightarrow> w2
           | (Some m2, w2) \<Rightarrow>
               log_Println (''unpushlish err: '' @ m2) (ctx_JSON m2 (ctx_StatusCode 500 w2))))"

section \<open>The serial counter\<close>

text \<open>
  \<open>strconv.Atoi\<close> and \<open>fmt.Sprintf("%d", _)\<close> of the Go library, for the 64-bit \<open>int\<close> of
  the platforms the service is built for. \<open>NextID\<close> drops the error of \<open>Atoi\<close>, so the
  model gives the integer returned with it: 0 on a syntax error, the nearest bound on a
  range error.
\<close>

definition is_digit :: "char \<Rightarrow> bool" where
  "is_digit c = (48 \<le> (of_char c :: nat) \<and> (of_char c :: nat) \<le> 57)"

definition digit_val :: "char \<Rightarrow> nat" where
  "digit_val c = of_char c - 48"

definition MaxUint64 :: nat where
  "MaxUint64 = 18446744073709551615"

definition MaxInt64 :: int where
  "MaxInt64 = 9223372036854775807"

definition MinInt64 :: int where
  "MinInt64 = - 9223372036854775808"

text \<open>
  The loop of \<open>strconv.ParseUint\<close> in base 10, \<open>n\<close> being the number read so far: \<open>None\<close> is
  the syntax error at a byte that is no digit; on overflow the loop stops at once with
  the largest value, before it looks at the bytes that follow.
\<close>

fun ParseUint :: "nat \<Rightarrow> string \<Rightarrow> nat option" where
  "ParseUint n [] = Some n"
| "ParseUint n (c # cs) =
     (if \<not> is_digit c then None
      else if MaxUint64 div 10 + 1 \<le> n then Some MaxUint64
      else if MaxUint64 < n * 10 + digit_val c then Some MaxUint64
      else ParseUint (n * 10 + digit_val c) cs)"

text \<open>
  \<open>Atoi\<close>: an optional sign, then the digits; the value is cut to the range of \<open>int\<close>. (For
  texts of fewer than 19 bytes the library has a loop of its own with the same result:
  such a text cannot overflow.)
\<close>

definition Atoi :: "string \<Rightarrow> int" where
  "Atoi s =
     (case s of
        [] \<Rightarrow> 0
      | c # cs \<Rightarrow>
          (let neg = (c = CHR ''-'');
               ds = (if c = CHR ''-'' \<or> c = CHR ''+'' then cs else s)
           in if ds = [] then 0
              else (case ParseUint 0 ds of
                      None \<Rightarrow> 0
                    | Some un \<Rightarrow>
                        if \<not> neg \<and> 9223372036854775808 \<le> un then MaxInt64
                        else if neg \<and> 9223372036854775808 < un then MinInt64
                        else if neg then - int un else int un)))"

definition digit_char :: "nat \<Rightarrow> char" where
  "digit_char d = ''0123456789'' ! d"

fun decimal :: "nat \<Rightarrow> string" where
  "decimal n = (if n < 10 then [digit_char n] else decimal (n div 10) @ [digit_char (n mod 10)])"

declare decimal.simps [simp del]

definition Sprintf_d :: "int \<Rightarrow> string" where
  "Sprintf_d i = (if i < 0 then CHR ''-'' # decimal (nat (- i)) else decimal (nat i))"

text \<open>\<open>value += 1\<close> on an \<open>int\<close>: the sum wraps around at the ends of the 64-bit range.\<close>

definition wrap64 :: "int \<Rightarrow> int" where
  "wrap64 i = (i + 9223372036854775808) mod 18446744073709551616 - 9223372036854775808"

text \<open>
  \<open>NextID\<close>, from the answer of the \<open>Get\<close> on: the value returned and the write made.
\<close>

definition NextID_write :: "env \<Rightarrow> string option \<Rightarrow> world \<Rightarrow> string \<times> world" where
  "NextID_write e r w =
     (case r of
        None \<Rightarrow> (''0'', etcd_Put e ''/xiaomakai/id'' ''1'' w)
      | Some v \<Rightarrow> (v, etcd_Put e ''/xiaomakai/id'' (Sprintf_d (wrap64 (Atoi v + 1))) w))"

definition NextID :: "env \<Rightarrow> world \<Rightarrow> string res \<times> world" where
  "NextID e w =
     (case etcd_Get e ''/xiaomakai/id'' w of
        (Inl m, w1) \<Rightarrow> (Panic (PanicErr m), w1)
      | (Inr r, w1) \<Rightarrow> (case NextID_write e r w1 of (v, w2) \<Rightarrow> (Ok v, w2)))"

section \<open>Publish\<close>

text \<open>
  \<open>app.Post("/disk/{name:string}/publish/{node:string}")\<close>, in three parts as the handler
  runs them: the backend store is attached, the serial of the volume is looked up (and
  made when there is none), the guest device is attached.
\<close>

definition drive_add_cmd :: "string \<Rightarrow> string" where
  "drive_add_cmd name =
     ''drive_add 0 if=none,format=qcow2,file='' @ (diskRoot @ name @ ''.qcow2'') @ '',id='' @ name"

definition device_add_cmd :: "string \<Rightarrow> string \<Rightarrow> string" where
  "device_add_cmd name serial =
     ''device_add virtio-blk-pci,drive='' @ name @ '',id='' @ name @ '',serial='' @ serial"

text \<open>
  The lookup: the answer \<open>r\<close> of the first \<open>Get\<close> when it has an entry, otherwise the answer
  of the second \<open>Get\<close>, made after \<open>NextID\<close> and the \<open>Put\<close> of the binding; then \<open>r.Kvs[0].Value\<close>.
\<close>

definition publish_serial :: "env \<Rightarrow> string \<Rightarrow> world \<Rightarrow> string res \<times> world" where
  "publish_serial e name w =
     (case etcd_Get e (''/xiaomakai/'' @ name) w of
        (Inl m, w1) \<Rightarrow> (Panic (PanicErr m), w1)
      | (Inr (Some v), w1) \<Rightarrow> (Ok v, w1)
      | (Inr None, w1) \<Rightarrow>
          (case NextID e w1 of
             (Panic p, w2) \<Rightarrow> (Panic p, w2)
           | (Ok sid, w2) \<Rightarrow>
               (case etcd_Get e (''/xiaomakai/'' @ name) (etcd_Put e (''/xiaomakai/'' @ name) sid w2) of
                  (Inl m, w3) \<Rightarrow> (Panic (PanicErr m), w3)
                | (Inr None, w3) \<Rightarrow> (Panic IndexOutOfRange, w3)
                | (Inr (Some v), w3) \<Rightarrow> (Ok v, w3))))"

text \<open>
  The device attach and what follows its failure. After the compensating \<open>drive_del\<close> the
  variable \<open>err\<close> holds the result of that command: when it is nil, \<open>err.Error()\<close> in the
  argument of \<open>ctx.JSON\<close> is a call on a nil interface.
\<close>

definition publish_device :: "env \<Rightarrow> string \<Rightarrow> string \<Rightarrow> string \<Rightarrow> world \<Rightarrow> unit res \<times> world" where
  "publish_device e name node serial w =
     (case wrapper_Exec e node (device_add_cmd name serial) w of
        (None, w1) \<Rightarrow> (Ok (), w1)
      | (Some m1, w1) \<Rightarrow>
          (case wrapper_Exec e node (''drive_del '' @ name) w1 of
             (Some m2, w2) \<Rightarrow> (Panic (LogPanic (''error: '' @ m2)), log_Println (''error: '' @ m2) w2)
           | (None, w2) \<Rightarrow> (Panic NilDeref, ctx_StatusCode 500 w2)))"

definition publish :: "env \<Rightarrow> string \<Rightarrow> string \<Rightarrow> world \<Rightarrow> unit res \<times> world" where
  "publish e name node w =
     (case wrapper_Exec e node (drive_add_cmd name) w of
        (Some m, w1) \<Rightarrow>
          (Ok (), log_Println (''publish err: '' @ m) (ctx_JSON m (ctx_StatusCode 500 w1)))
      | (None, w1) \<Rightarrow>
          (case publish_serial e name w1 of
             (Panic p, w2) \<Rightarrow> (Panic p, w2)
           | (Ok serial, w2) \<Rightarrow> publish_device e name node serial w2))"

text \<open>Collaborators that never fail, and a store with nothing in it.\<close>

definition env_ok :: env where
  "env_ok = \<lparr>exec_err = (\<lambda>h node cmd. None), get_err = (\<lambda>h k. None), put_ok = (\<lambda>h k v. True)\<rparr>"

definition world0 :: world where
  "world0 = \<lparr>kv = Map.empty, trace = []\<rparr>"

text \<open>A host that takes the first command it is sent and rejects every later one.\<close>

definition env_reject :: env where
  "env_reject = \<lparr>exec_err = (\<lambda>h node cmd. if h = [] then None else Some ''rejected''),
                  get_err = (\<lambda>h k. None), put_ok = (\<lambda>h k v. True)\<rparr>"

definition world_a :: world where
  "world_a = \<lparr>kv = [''/xiaomakai/vol-a'' \<mapsto> ''7''], trace = []\<rparr>"

definition world_b :: world where
  "world_b = \<lparr>kv = [''/xiaomakai/vol-b'' \<mapsto> ''8''], trace = []\<rparr>"

section \<open>Observations on a trace\<close>

text \<open>The bytes one run of the device path handler writes to the response.\<close>

definition path_written :: "env \<Rightarrow> string \<Rightarrow> world \<Rightarrow> string" where
  "path_written e name w =
     response_body (drop (length (trace w)) (trace (snd (dev_path e name w))))"

definition is_store :: "event \<Rightarrow> bool" where
  "is_store ev = (case ev of EtcdGet k \<Rightarrow> True | EtcdPut k v \<Rightarrow> True | _ \<Rightarrow> False)"

definition is_reply :: "event \<Rightarrow> bool" where
  "is_reply ev =
     (case ev of StatusCode n \<Rightarrow> True | JSON m \<Rightarrow> True | Write b \<Rightarrow> True | Log m \<Rightarrow> True
      | _ \<Rightarrow> False)"

definition new_events :: "world \<Rightarrow> world \<Rightarrow> event list" where
  "new_events w w' = drop (length (trace w)) (trace w')"

section \<open>Concrete worlds and hosts\<close>

text \<open>The world after the first publish of "vol-a" on collaborators that never fail.\<close>

definition world_first :: world where
  "world_first = snd (publish env_ok ''vol-a'' ''host-1'' world0)"

text \<open>A host that rejects \<open>device_add\<close> and takes every other command.\<close>

definition env_no_device :: env where
  "env_no_device =
     \<lparr>exec_err = (\<lambda>h node cmd. if take 10 cmd = ''device_add'' then Some ''rejected'' else None),
      get_err = (\<lambda>h k. None), put_ok = (\<lambda>h k v. True)\<rparr>"

text \<open>
  The world in which a first publish of "vol-b" to "host-2" reaches the device attach:
  the backend store is attached and the serial "0" is bound.
\<close>

definition world_bound_b :: world where
  "world_bound_b =
     \<lparr>kv = [''/xiaomakai/id'' \<mapsto> ''1'', ''/xiaomakai/vol-b'' \<mapsto> ''0''],
      trace =
        [Exec ''host-2''
           ''drive_add 0 if=none,format=qcow2,file=/fs/trust/vm/csi/vol-b.qcow2,id=vol-b'',
         EtcdGet ''/xiaomakai/vol-b'', EtcdGet ''/xiaomakai/id'',
         EtcdPut ''/xiaomakai/id'' ''1'', EtcdPut ''/xiaomakai/vol-b'' ''0'',
         EtcdGet ''/xiaomakai/vol-b'']\<rparr>"

section \<open>Concurrent calls of NextID\<close>

text \<open>
  \<open>NextID\<close> takes the mutex \<open>m\<close>, a variable of the process, then makes two requests to the
  store: the \<open>Get\<close> and the \<open>Put\<close>. Calls of other processes can run between the two. A
  call is \<open>Ready\<close> before it has the mutex, \<open>Fetched r\<close> between its \<open>Get\<close> (with answer
  \<open>r\<close>) and its \<open>Put\<close>, and \<open>Returned v\<close> or \<open>Crashed m\<close> (the \<open>panic(err)\<close> after a failed
  \<open>Get\<close>) when it is over; the deferred \<open>m.Unlock()\<close> runs in both. A caller is a call
  together with the number of the orchestrator instance (the process) it runs in.
\<close>

datatype call = Ready | Fetched "string option" | Returned string | Crashed string

type_synonym caller = "nat \<times> call"

definition holds_mutex :: "call \<Rightarrow> bool" where
  "holds_mutex c = (case c of Fetched r \<Rightarrow> True | _ \<Rightarrow> False)"

definition mutex_held :: "caller list \<Rightarrow> nat \<Rightarrow> bool" where
  "mutex_held cs k = list_ex (\<lambda>c. fst c = k \<and> holds_mutex (snd c)) cs"

text \<open>
  One step of caller \<open>i\<close>: nothing when it is over or waits for the mutex of its instance,
  otherwise its next request to the store.
\<close>

definition step :: "env \<Rightarrow> nat \<Rightarrow> world \<times> caller list \<Rightarrow> world \<times> caller list" where
  "step e i c =
     (case c of (w, cs) \<Rightarrow>
        if length cs \<le> i then (w, cs)
        else (case cs ! i of
                (k, Ready) \<Rightarrow>
                  if mutex_held cs k then (w, cs)
                  else (case etcd_Get e ''/xiaomakai/id'' w of
                          (Inl m, w1) \<Rightarrow> (w1, cs[i := (k, Crashed m)])
                        | (Inr r, w1) \<Rightarrow> (w1, cs[i := (k, Fetched r)]))
              | (k, Fetched r) \<Rightarrow>
                  (case NextID_write e r w of (v, w1) \<Rightarrow> (w1, cs[i := (k, Returned v)]))
              | (k, Returned v) \<Rightarrow> (w, cs)
              | (k, Crashed m) \<Rightarrow> (w, cs)))"

text \<open>A schedule names, step by step, the caller that moves.\<close>

fun run :: "env \<Rightarrow> nat list \<Rightarrow> world \<times> caller list \<Rightarrow> world \<times> caller list" where
  "run e [] c = c"
| "run e (i # sched) c = run e sched (step e i c)"

definition serial_of :: "caller \<Rightarrow> string list" where
  "serial_of c = (case snd c of Returned v \<Rightarrow> [v] | _ \<Rightarrow> [])"

text \<open>The serials returned so far, in the order of the callers.\<close>

definition returned :: "caller list \<Rightarrow> string list" where
  "returned cs = concat (map serial_of cs)"

text \<open>
  For the proof about one instance: the counter after \<open>m\<close> calls, the serials they
  returned, and what holds of every configuration the instance reaches.
\<close>

fun ctr :: "nat \<Rightarrow> string option" where
  "ctr 0 = None"
| "ctr (Suc j) = Some (Sprintf_d (wrap64 (int (Suc j))))"

definition serials_upto :: "nat \<Rightarrow> string set" where
  "serials_upto m = (\<lambda>i. Sprintf_d (int i)) ` {0..<m}"

definition inv :: "nat \<Rightarrow> world \<times> caller list \<Rightarrow> bool" where
  "inv k c =
     (case c of (w, cs) \<Rightarrow>
        (\<forall>c\<in>set cs. fst c = k)
      \<and> (\<forall>i<length cs. \<forall>r. snd (cs ! i) = Fetched r \<longrightarrow>
            r = kv w ''/xiaomakai/id''
            \<and> (\<forall>j<length cs. holds_mutex (snd (cs ! j)) \<longrightarrow> j = i))
      \<and> kv w ''/xiaomakai/id'' = ctr (length (returned cs))
      \<and> set (returned cs) = serials_upto (length (returned cs))
      \<and> distinct (returned cs)
      \<and> length cs \<le> 2 ^ 63)"

section \<open>Endpoints\<close>

text \<open>
  \<open>Parse\<close> of \<open>pkg/umeq/server.go\<close> and the functions of the Go library it calls. A Go
  string is a sequence of bytes; a rune is a Unicode code point.
\<close>

type_synonym rune = nat

definition byte :: "char \<Rightarrow> nat" where
  "byte c = of_char c"

definition RuneError :: rune where
  "RuneError = 65533"

text \<open>
  \<open>utf8.DecodeRuneInString\<close>: the rune at the head of the bytes and its width. The lead
  bytes 0xC2 to 0xF4 announce 2, 3 or 4 bytes and the range of the second one; an
  invalid or short encoding is \<open>RuneError\<close> of width 1.
\<close>

definition rune_size :: "nat \<Rightarrow> nat" where
  "rune_size b0 = (if b0 < 224 then 2 else if b0 < 240 then 3 else 4)"

definition accept_lo :: "nat \<Rightarrow> nat" where
  "accept_lo b0 = (if b0 = 224 then 160 else if b0 = 240 then 144 else 128)"

definition accept_hi :: "nat \<Rightarrow> nat" where
  "accept_hi b0 = (if b0 = 237 then 159 else if b0 = 244 then 143 else 191)"

definition DecodeRune :: "string \<Rightarrow> rune \<times> nat" where
  "DecodeRune s =
     (case s of
        [] \<Rightarrow> (RuneError, 0)
      | c0 # t \<Rightarrow>
          (let b0 = byte c0 in
           if b0 < 128 then (b0, 1)
           else if b0 < 194 \<or> 244 < b0 then (RuneError, 1)
           else if length s < rune_size b0 then (RuneError, 1)
           else let b1 = byte (t ! 0) in
             if b1 < accept_lo b0 \<or> accept_hi b0 < b1 then (RuneError, 1)
             else if rune_size b0 \<le> 2 then (b0 mod 32 * 64 + b1 mod 64, 2)
             else let b2 = byte (t ! 1) in
               if b2 < 128 \<or> 191 < b2 then (RuneError, 1)
               else if rune_size b0 \<le> 3
                 then (b0 mod 16 * 4096 + b1 mod 64 * 64 + b2 mod 64, 3)
               else let b3 = byte (t ! 2) in
                 if b3 < 128 \<or> 191 < b3 then (RuneError, 1)
                 else (b0 mod 8 * 262144 + b1 mod 64 * 4096 + b2 mod 64 * 64 + b3 mod 64, 4)))"

text \<open>\<open>utf8.EncodeRune\<close>: the bytes of a rune.\<close>

definition EncodeRune :: "rune \<Rightarrow> string" where
  "EncodeRune r =
     (if r \<le> 127 then [char_of r]
      else if r \<le> 2047 then [char_of (192 + r div 64), char_of (128 + r mod 64)]
      else if 1114111 < r \<or> (55296 \<le> r \<and> r \<le> 57343)
        then [char_of (239::nat), char_of (191::nat), char_of (189::nat)]
      else if r \<le> 65535
        then [char_of (224 + r div 4096), char_of (128 + r div 64 mod 64), char_of (128 + r mod 64)]
      else [char_of (240 + r div 262144), char_of (128 + r div 4096 mod 64),
            char_of (128 + r div 64 mod 64), char_of (128 + r mod 64)])"

text \<open>
  \<open>unicode.ToLower\<close>: written out for ASCII, as in the library; for the other code points
  the library reads its case table, which is the parameter \<open>tbl\<close>.
\<close>

definition unicode_ToLower :: "(rune \<Rightarrow> rune) \<Rightarrow> rune \<Rightarrow> rune" where
  "unicode_ToLower tbl r =
     (if r \<le> 127 then (if 65 \<le> r \<and> r \<le> 90 then r + 32 else r) else tbl r)"

text \<open>
  \<open>strings.ToLower\<close>: the runes of the text, each mapped by \<open>unicode.ToLower\<close> and encoded
  again.
\<close>

function ToLower :: "(rune \<Rightarrow> rune) \<Rightarrow> string \<Rightarrow> string" where
  "ToLower tbl s =
     (if s = [] then []
      else EncodeRune (unicode_ToLower tbl (fst (DecodeRune s))) @
           ToLower tbl (drop (snd (DecodeRune s)) s))"
  by pat_completeness auto
termination
  by (relation "measure (\<lambda>(tbl, s). length s)")
     (auto simp: DecodeRune_def Let_def split: list.splits)

declare ToLower.simps [simp del]

definition HasPrefix :: "string \<Rightarrow> string \<Rightarrow> bool" where
  "HasPrefix s p = (length p \<le> length s \<and> take (length p) s = p)"

text \<open>\<open>strings.Index\<close>: where the separator first occurs.\<close>

fun Index :: "string \<Rightarrow> string \<Rightarrow> nat option" where
  "Index [] sep = (if sep = [] then Some 0 else None)"
| "Index (c # s) sep =
     (if HasPrefix (c # s) sep then Some 0 else map_option Suc (Index s sep))"

text \<open>
  \<open>strings.SplitN(s, sep, 2)\<close> for a non-empty separator: the text before and after the
  first separator, or the text alone when it has none.
\<close>

definition SplitN2 :: "string \<Rightarrow> string \<Rightarrow> string list" where
  "SplitN2 s sep =
     (if s = [] then [s]
      else (case Index s sep of
              None \<Rightarrow> [s]
            | Some m \<Rightarrow> [take m s, drop (m + length sep) s]))"

text \<open>
  \<open>Parse\<close>: the error is \<open>Inl\<close> of its message, and \<open>s[1]\<close> on a slice of one element is a
  panic.
\<close>

definition Parse :: "(rune \<Rightarrow> rune) \<Rightarrow> string \<Rightarrow> (string + string \<times> string) res" where
  "Parse tbl ep =
     (if HasPrefix (ToLower tbl ep) ''unix://'' \<or> HasPrefix (ToLower tbl ep) ''tcp://''
      then (let s = SplitN2 ep ''://'' in
            if length s < 2 then Panic IndexOutOfRange
            else if s ! 1 \<noteq> [] then Ok (Inr (s ! 0, s ! 1))
            else Ok (Inl (''Invalid endpoint: '' @ ep)))
      else Ok (Inr (''unix'', ep)))"

text \<open>
  A case table for the examples: the dotted capital I and the Kelvin sign have the ASCII
  letters i and k as lower case, every other code point is kept.
\<close>

definition tbl0 :: "rune \<Rightarrow> rune" where
  "tbl0 r = (if r = 304 then 105 else if r = 8490 then 107 else r)"

section \<open>Properties of the handlers\<close>

lemmas prims =
  emit_def wrapper_Exec_def etcd_Get_def etcd_Put_def
  ctx_StatusCode_def ctx_JSON_def ctx_Write_def log_Println_def

lemmas handlers = publish_def publish_serial_def publish_device_def NextID_def NextID_write_def

subsection \<open>Unpublish\<close>

text \<open>
  C2, as the specification has it: every Unpublish sends the backend detach, whether or
  not the device detach succeeded. The handler sends \<open>drive_del\<close> inside the branch taken
  when \<open>device_del\<close> failed, so on a host that accepts \<open>device_del\<close> that is the only
  command of the run.
\<close>

theorem unpublish_skips_drive_del_counterexample:
  "trace (unpublish env_ok ''vol-a'' ''host-1'' world0) = [Exec ''host-1'' ''device_del vol-a'']"
  by (simp add: unpublish_def prims env_ok_def world0_def)

text \<open>
  C2, amended: Unpublish always sends \<open>device_del\<close>; it sends \<open>drive_del\<close> exactly when
  \<open>device_del\<close> failed; it answers 500 with the error of \<open>drive_del\<close> exactly when both
  failed, and leaves the response alone (a success) otherwise. The store is not touched.
\<close>

theorem unpublish_commands:
  "kv (unpublish e name node w) = kv w \<and>
   trace (unpublish e name node w) = trace w @
     (case exec_err e (trace w) node (''device_del '' @ name) of
        None \<Rightarrow> [Exec node (''device_del '' @ name)]
      | Some m1 \<Rightarrow>
          (case exec_err e (trace w @ [Exec node (''device_del '' @ name)]) node
                  (''drive_del '' @ name) of
             None \<Rightarrow> [Exec node (''device_del '' @ name), Exec node (''drive_del '' @ name)]
           | Some m2 \<Rightarrow>
               [Exec node (''device_del '' @ name), Exec node (''drive_del '' @ name),
                StatusCode 500, JSON m2, Log (''unpushlish err: '' @ m2)]))"
  by (simp add: unpublish_def prims split: option.splits)

subsection \<open>The device path\<close>

text \<open>
  C8, as the specification has it: a lookup for a volume without a binding is a NotFound
  outcome, not an internal error, and is not logged. The handler answers with status
  500, the status of every other failure of the service, and logs the message.
\<close>

theorem dev_path_unbound_counterexample:
  "response_status (trace (snd (dev_path env_ok ''vol-a'' world0))) = 500
   \<and> Log ''volume vol-a not found! not published yet?''
       \<in> set (trace (snd (dev_path env_ok ''vol-a'' world0)))"
  by (simp add: dev_path_def prims env_ok_def world0_def response_status_def Let_def)

text \<open>
  C8, amended: when the store answers and holds no binding for the name, the handler
  returns normally after setting status 500, sending the JSON message
  "volume NAME not found! not published yet?" and logging the same message; no path is
  written.
\<close>

theorem dev_path_unbound:
  assumes "get_err e (trace w) (''/xiaomakai/'' @ name) = None"
      and "kv w (''/xiaomakai/'' @ name) = None"
  shows "dev_path e name w =
           (Ok (), w\<lparr>trace := trace w @
              [EtcdGet (''/xiaomakai/'' @ name), StatusCode 500,
               JSON (''volume '' @ name @ '' not found! not published yet?''),
               Log (''volume '' @ name @ '' not found! not published yet?'')]\<rparr>)
       \<and> response_status (trace (snd (dev_path e name w))) = 500
       \<and> path_written e name w = []"
  using assms
  by (simp add: dev_path_def prims response_status_def Let_def path_written_def)

theorem dev_path_unbound_witness:
  "dev_path env_ok ''vol-a'' world0 =
     (Ok (), world0\<lparr>trace :=
        [EtcdGet ''/xiaomakai/vol-a'', StatusCode 500,
         JSON ''volume vol-a not found! not published yet?'',
         Log ''volume vol-a not found! not published yet?'']\<rparr>)"
proof -
  have g: "get_err env_ok (trace world0) (''/xiaomakai/'' @ ''vol-a'') = None"
    by (simp add: env_ok_def)
  have k: "kv world0 (''/xiaomakai/'' @ ''vol-a'') = None"
    by (simp add: world0_def)
  from dev_path_unbound [OF g k] show ?thesis by (simp add: world0_def)
qed

text \<open>
  C9: for a bound volume the handler returns normally and the bytes it writes are the
  fixed prefix "/dev/disk/by-id/virtio-" followed by the stored serial, whatever the
  name, the collaborators and the rest of the store are; two runs that find different
  serials write different paths.
\<close>

theorem dev_path_resolves:
  assumes "get_err e (trace w) (''/xiaomakai/'' @ name) = None"
      and "kv w (''/xiaomakai/'' @ name) = Some serial"
  shows "fst (dev_path e name w) = Ok ()
       \<and> path_written e name w = ''/dev/disk/by-id/virtio-'' @ serial
       \<and> (\<forall>e' name' w' serial'.
            get_err e' (trace w') (''/xiaomakai/'' @ name') = None \<longrightarrow>
            kv w' (''/xiaomakai/'' @ name') = Some serial' \<longrightarrow> serial' \<noteq> serial \<longrightarrow>
            path_written e' name' w' \<noteq> path_written e name w)"
  using assms by (simp add: dev_path_def prims path_written_def)

theorem dev_path_resolves_witness:
  "fst (dev_path env_ok ''vol-a'' world_a) = Ok ()
   \<and> path_written env_ok ''vol-a'' world_a = ''/dev/disk/by-id/virtio-7''
   \<and> path_written env_ok ''vol-b'' world_b \<noteq> path_written env_ok ''vol-a'' world_a"
proof -
  have g: "get_err env_ok (trace world_a) (''/xiaomakai/'' @ ''vol-a'') = None"
    by (simp add: env_ok_def)
  have k: "kv world_a (''/xiaomakai/'' @ ''vol-a'') = Some ''7''"
    by (simp add: world_a_def)
  have g': "get_err env_ok (trace world_b) (''/xiaomakai/'' @ ''vol-b'') = None"
    by (simp add: env_ok_def)
  have k': "kv world_b (''/xiaomakai/'' @ ''vol-b'') = Some ''8''"
    by (simp add: world_b_def)
  have d: "''8'' \<noteq> ''7''" by simp
  note t = dev_path_resolves [OF g k]
  from t have other: "path_written env_ok ''vol-b'' world_b \<noteq> path_written env_ok ''vol-a'' world_a"
    using g' k' d by blast
  from t other show ?thesis by simp
qed

subsection \<open>The serial counter\<close>

text \<open>
  C4, as the specification has it: the first call returns the value it writes to the
  counter key. On an empty store \<open>NextID\<close> writes "1" and returns "0".
\<close>

theorem NextID_first_counterexample:
  "fst (NextID env_ok world0) = Ok ''0''
   \<and> kv (snd (NextID env_ok world0)) ''/xiaomakai/id'' = Some ''1''"
  by (simp add: NextID_def NextID_write_def prims env_ok_def world0_def)

text \<open>
  C4, amended: when the counter key is absent, the \<open>Get\<close> is answered and the \<open>Put\<close> takes
  effect, the first call writes "1" to the counter key and returns "0", the value
  before the increment.
\<close>

theorem NextID_first:
  assumes "kv w ''/xiaomakai/id'' = None"
      and "get_err e (trace w) ''/xiaomakai/id'' = None"
      and "put_ok e (trace w @ [EtcdGet ''/xiaomakai/id'']) ''/xiaomakai/id'' ''1''"
  shows "NextID e w =
           (Ok ''0'', \<lparr>kv = (kv w)(''/xiaomakai/id'' \<mapsto> ''1''),
                       trace = trace w @ [EtcdGet ''/xiaomakai/id'', EtcdPut ''/xiaomakai/id'' ''1'']\<rparr>)"
  using assms by (simp add: NextID_def NextID_write_def prims)

theorem NextID_first_witness:
  "NextID env_ok world0 =
     (Ok ''0'', \<lparr>kv = [''/xiaomakai/id'' \<mapsto> ''1''],
                 trace = [EtcdGet ''/xiaomakai/id'', EtcdPut ''/xiaomakai/id'' ''1'']\<rparr>)"
proof -
  have k: "kv world0 ''/xiaomakai/id'' = None" by (simp add: world0_def)
  have g: "get_err env_ok (trace world0) ''/xiaomakai/id'' = None" by (simp add: env_ok_def)
  have p: "put_ok env_ok (trace world0 @ [EtcdGet ''/xiaomakai/id'']) ''/xiaomakai/id'' ''1''"
    by (simp add: env_ok_def)
  from NextID_first [OF k g p] show ?thesis by (simp add: world0_def)
qed

subsection \<open>Publish\<close>

lemma emit_simps: "trace (emit ev w) = trace w @ [ev]" "kv (emit ev w) = kv w"
  by (simp_all add: emit_def)

lemma publish_device_trace:
  "\<exists>tl. trace (snd (publish_device e name node serial w)) = trace w @ Exec node (device_add_cmd name serial) # tl
     \<and> list_all (\<lambda>ev. \<not> is_store ev) tl"
  by (auto simp: publish_device_def prims is_store_def split: option.splits)

lemma publish_serial_fresh:
  assumes "get_err e = (\<lambda>h k. None)" "put_ok e = (\<lambda>h k v. True)"
  shows "publish_serial e ''vol-b'' (emit (Exec ''host-2'' (drive_add_cmd ''vol-b'')) world0) = (Ok ''0'', world_bound_b)"
  using assms
  by (simp add: publish_serial_def NextID_def NextID_write_def prims world0_def world_bound_b_def
        drive_add_cmd_def diskRoot_def)

lemma publish_unfold:
  assumes "exec_err e (trace w) node (drive_add_cmd name) = None"
      and "publish_serial e name (emit (Exec node (drive_add_cmd name)) w) = (Ok serial, w2)"
  shows "publish e name node w = publish_device e name node serial w2"
  using assms by (simp add: publish_def wrapper_Exec_def)

lemma publish_reject_run:
  "publish env_reject ''vol-b'' ''host-2'' world0 = publish_device env_reject ''vol-b'' ''host-2'' ''0'' world_bound_b"
  by (rule publish_unfold, simp add: env_reject_def world0_def, rule publish_serial_fresh)
     (simp_all add: env_reject_def)

lemma publish_no_device_run:
  "publish env_no_device ''vol-b'' ''host-2'' world0 = publish_device env_no_device ''vol-b'' ''host-2'' ''0'' world_bound_b"
  by (rule publish_unfold, simp add: env_no_device_def drive_add_cmd_def, rule publish_serial_fresh)
     (simp_all add: env_no_device_def)

lemma world_first_eq:
  "world_first = \<lparr>kv = [''/xiaomakai/id'' \<mapsto> ''1'', ''/xiaomakai/vol-a'' \<mapsto> ''0''],
     trace = [Exec ''host-1'' ''drive_add 0 if=none,format=qcow2,file=/fs/trust/vm/csi/vol-a.qcow2,id=vol-a'',
      EtcdGet ''/xiaomakai/vol-a'', EtcdGet ''/xiaomakai/id'',
      EtcdPut ''/xiaomakai/id'' ''1'', EtcdPut ''/xiaomakai/vol-a'' ''0'',
      EtcdGet ''/xiaomakai/vol-a'',
      Exec ''host-1'' ''device_add virtio-blk-pci,drive=vol-a,id=vol-a,serial=0'']\<rparr>"
  by (simp add: world_first_def handlers
        drive_add_cmd_def device_add_cmd_def diskRoot_def prims env_ok_def world0_def)

text \<open>
  C5, as the specification has it: the binding is resolved before any command is sent to
  the host. In a first publish the \<open>drive_add\<close> command is sent before the store is read.
\<close>

theorem publish_order_counterexample:
  "trace (snd (publish env_ok ''vol-a'' ''host-1'' world0)) =
     [Exec ''host-1'' ''drive_add 0 if=none,format=qcow2,file=/fs/trust/vm/csi/vol-a.qcow2,id=vol-a'',
      EtcdGet ''/xiaomakai/vol-a'', EtcdGet ''/xiaomakai/id'',
      EtcdPut ''/xiaomakai/id'' ''1'', EtcdPut ''/xiaomakai/vol-a'' ''0'',
      EtcdGet ''/xiaomakai/vol-a'',
      Exec ''host-1'' ''device_add virtio-blk-pci,drive=vol-a,id=vol-a,serial=0'']"
  by (simp add: publish_def publish_serial_def publish_device_def NextID_def NextID_write_def
        drive_add_cmd_def device_add_cmd_def diskRoot_def prims env_ok_def world0_def)

text \<open>What the lookup of the serial does, case by case.\<close>

lemma publish_serial_get_fails:
  assumes "get_err e (trace w) (''/xiaomakai/'' @ name) = Some m"
  shows "publish_serial e name w = (Panic (PanicErr m), emit (EtcdGet (''/xiaomakai/'' @ name)) w)"
  using assms by (simp add: publish_serial_def etcd_Get_def)

lemma publish_serial_bound:
  assumes "get_err e (trace w) (''/xiaomakai/'' @ name) = None"
      and "kv w (''/xiaomakai/'' @ name) = Some s"
  shows "publish_serial e name w = (Ok s, emit (EtcdGet (''/xiaomakai/'' @ name)) w)"
  using assms by (simp add: publish_serial_def etcd_Get_def)

lemma publish_serial_absent:
  assumes "get_err e (trace w) (''/xiaomakai/'' @ name) = None"
      and "kv w (''/xiaomakai/'' @ name) = None"
  shows "\<exists>evs. trace (snd (publish_serial e name w)) =
            trace w @ EtcdGet (''/xiaomakai/'' @ name) # EtcdGet ''/xiaomakai/id'' # evs
          \<and> list_all is_store evs"
  using assms
  by (auto simp: publish_serial_def NextID_def NextID_write_def etcd_Get_def etcd_Put_def
        emit_simps is_store_def split: option.splits)

lemma publish_serial_absent_ok:
  assumes "\<forall>h k. get_err e h k = None" and "\<forall>h k v. put_ok e h k v"
      and "kv w (''/xiaomakai/'' @ name) = None"
  shows "fst (publish_serial e name w) =
           Ok (case kv w ''/xiaomakai/id'' of None \<Rightarrow> ''0'' | Some v \<Rightarrow> v)
       \<and> trace (snd (publish_serial e name w)) = trace w @
           [EtcdGet (''/xiaomakai/'' @ name), EtcdGet ''/xiaomakai/id'',
            EtcdPut ''/xiaomakai/id''
              (case kv w ''/xiaomakai/id'' of None \<Rightarrow> ''1''
               | Some v \<Rightarrow> Sprintf_d (wrap64 (Atoi v + 1))),
            EtcdPut (''/xiaomakai/'' @ name)
              (case kv w ''/xiaomakai/id'' of None \<Rightarrow> ''0'' | Some v \<Rightarrow> v),
            EtcdGet (''/xiaomakai/'' @ name)]"
  using assms
  by (auto simp: publish_serial_def NextID_def NextID_write_def etcd_Get_def etcd_Put_def
        emit_def split: option.splits)

lemma publish_serial_shape:
  "\<exists>evs. trace (snd (publish_serial e name w)) = trace w @ EtcdGet (''/xiaomakai/'' @ name) # evs
     \<and> list_all is_store evs
     \<and> (case fst (publish_serial e name w) of
          Ok s \<Rightarrow> kv (snd (publish_serial e name w)) (''/xiaomakai/'' @ name) = Some s
        | Panic p \<Rightarrow> (\<exists>m. p = PanicErr m) \<or> p = IndexOutOfRange)"
  by (auto simp: publish_serial_def NextID_def NextID_write_def etcd_Get_def etcd_Put_def
        emit_def is_store_def split: option.splits)

lemma publish_device_kv: "kv (snd (publish_device e name node serial w)) = kv w"
  by (simp add: publish_device_def prims split: option.splits)

text \<open>
  C5, amended: Publish first sends \<open>drive_add\<close> to the host. When that fails it answers 500
  and never reads the store. When it succeeds, the next event is the \<open>Get\<close> of the
  binding, followed by the other requests of the lookup (none when the binding exists;
  the \<open>Get\<close> and \<open>Put\<close> of the counter, the \<open>Put\<close> of the binding and a second \<open>Get\<close> of it when
  it is absent and the store answers), and after them \<open>device_add\<close> is the next command,
  with the serial then bound to the volume. Only a panic of the lookup (a failed \<open>Get\<close>,
  or an empty answer to the second one) ends the handler before \<open>device_add\<close>.
\<close>

theorem publish_order:
  "(\<forall>m. exec_err e (trace w) node (drive_add_cmd name) = Some m \<longrightarrow>
       publish e name node w =
         (Ok (), w\<lparr>trace := trace w @
            [Exec node (drive_add_cmd name), StatusCode 500, JSON m, Log (''publish err: '' @ m)]\<rparr>))
   \<and> (exec_err e (trace w) node (drive_add_cmd name) = None \<longrightarrow>
       (\<exists>store_evs rest.
          trace (snd (publish e name node w)) =
            trace w @ [Exec node (drive_add_cmd name), EtcdGet (''/xiaomakai/'' @ name)] @ store_evs @ rest
          \<and> list_all is_store store_evs
          \<and> list_all (\<lambda>ev. \<not> is_store ev) rest
          \<and> ((rest = [] \<and> ((\<exists>m. fst (publish e name node w) = Panic (PanicErr m))
                            \<or> fst (publish e name node w) = Panic IndexOutOfRange))
             \<or> (\<exists>serial tl. rest = Exec node (device_add_cmd name serial) # tl
                  \<and> kv (snd (publish e name node w)) (''/xiaomakai/'' @ name) = Some serial))
          \<and> (\<forall>m. get_err e (trace w @ [Exec node (drive_add_cmd name)]) (''/xiaomakai/'' @ name) = Some m \<longrightarrow>
                store_evs = [] \<and> rest = [] \<and> fst (publish e name node w) = Panic (PanicErr m))
          \<and> (\<forall>s. get_err e (trace w @ [Exec node (drive_add_cmd name)]) (''/xiaomakai/'' @ name) = None \<longrightarrow>
                kv w (''/xiaomakai/'' @ name) = Some s \<longrightarrow>
                store_evs = [] \<and> (\<exists>tl. rest = Exec node (device_add_cmd name s) # tl))
          \<and> (get_err e (trace w @ [Exec node (drive_add_cmd name)]) (''/xiaomakai/'' @ name) = None \<longrightarrow>
                kv w (''/xiaomakai/'' @ name) = None \<longrightarrow>
                (\<exists>more. store_evs = EtcdGet ''/xiaomakai/id'' # more))
          \<and> ((\<forall>h k. get_err e h k = None) \<longrightarrow> (\<forall>h k v. put_ok e h k v) \<longrightarrow>
                kv w (''/xiaomakai/'' @ name) = None \<longrightarrow>
                store_evs =
                  [EtcdGet ''/xiaomakai/id'',
                   EtcdPut ''/xiaomakai/id''
                     (case kv w ''/xiaomakai/id'' of None \<Rightarrow> ''1''
                      | Some v \<Rightarrow> Sprintf_d (wrap64 (Atoi v + 1))),
                   EtcdPut (''/xiaomakai/'' @ name)
                     (case kv w ''/xiaomakai/id'' of None \<Rightarrow> ''0'' | Some v \<Rightarrow> v),
                   EtcdGet (''/xiaomakai/'' @ name)]
                \<and> (\<exists>tl. rest = Exec node
                      (device_add_cmd name (case kv w ''/xiaomakai/id'' of None \<Rightarrow> ''0'' | Some v \<Rightarrow> v)) # tl))))"
  (is "?fail \<and> (?ok \<longrightarrow> (\<exists>store_evs rest. ?P store_evs rest))")
proof (intro conjI impI allI)
  fix m assume "exec_err e (trace w) node (drive_add_cmd name) = Some m"
  then show "publish e name node w =
         (Ok (), w\<lparr>trace := trace w @
            [Exec node (drive_add_cmd name), StatusCode 500, JSON m, Log (''publish err: '' @ m)]\<rparr>)"
    by (simp add: publish_def prims)
next
  assume ok: "exec_err e (trace w) node (drive_add_cmd name) = None"
  let ?key = "''/xiaomakai/'' @ name"
  let ?w1 = "emit (Exec node (drive_add_cmd name)) w"
  have t1: "trace ?w1 = trace w @ [Exec node (drive_add_cmd name)]" and k1: "kv ?w1 = kv w"
    by (simp_all add: emit_simps)
  obtain r w2 where ps: "publish_serial e name ?w1 = (r, w2)"
    by (cases "publish_serial e name ?w1")
  have "\<exists>evs. trace w2 = trace ?w1 @ EtcdGet ?key # evs \<and> list_all is_store evs
          \<and> (case r of Ok s \<Rightarrow> kv w2 ?key = Some s
               | Panic p \<Rightarrow> (\<exists>m. p = PanicErr m) \<or> p = IndexOutOfRange)"
    using publish_serial_shape [of e name ?w1] unfolding ps fst_conv snd_conv .
  then obtain evs where
    tr: "trace w2 = trace ?w1 @ EtcdGet ?key # evs" and st: "list_all is_store evs"
    and sh: "case r of Ok s \<Rightarrow> kv w2 ?key = Some s
             | Panic p \<Rightarrow> (\<exists>m. p = PanicErr m) \<or> p = IndexOutOfRange"
    by blast
  let ?res = "publish e name node w"
  let ?h1 = "trace w @ [Exec node (drive_add_cmd name)]"
  let ?sid = "case kv w ''/xiaomakai/id'' of None \<Rightarrow> ''0'' | Some v \<Rightarrow> v"
  let ?alloc = "[EtcdGet ''/xiaomakai/id'',
                 EtcdPut ''/xiaomakai/id''
                   (case kv w ''/xiaomakai/id'' of None \<Rightarrow> ''1''
                    | Some v \<Rightarrow> Sprintf_d (wrap64 (Atoi v + 1))),
                 EtcdPut ?key ?sid, EtcdGet ?key]"
  have c: "get_err e ?h1 ?key = None \<longrightarrow> kv w ?key = None \<longrightarrow>
             (\<exists>more. evs = EtcdGet ''/xiaomakai/id'' # more)"
  proof (intro impI)
    assume g: "get_err e ?h1 ?key = None" and n: "kv w ?key = None"
    have "\<exists>evs'. trace w2 = trace ?w1 @ EtcdGet ?key # EtcdGet ''/xiaomakai/id'' # evs'"
      using publish_serial_absent [of e ?w1 name] g n unfolding ps snd_conv t1 k1 by blast
    then obtain evs' where
      "trace w2 = trace ?w1 @ EtcdGet ?key # EtcdGet ''/xiaomakai/id'' # evs'" by blast
    with tr have "evs = EtcdGet ''/xiaomakai/id'' # evs'" by simp
    then show "\<exists>more. evs = EtcdGet ''/xiaomakai/id'' # more" by blast
  qed
  have fails: "\<And>m. get_err e ?h1 ?key = Some m \<Longrightarrow> r = Panic (PanicErr m) \<and> evs = []"
  proof -
    fix m assume g: "get_err e ?h1 ?key = Some m"
    have "publish_serial e name ?w1 = (Panic (PanicErr m), emit (EtcdGet ?key) ?w1)"
      using g by (intro publish_serial_get_fails) (simp add: t1)
    with ps have "r = Panic (PanicErr m)" "w2 = emit (EtcdGet ?key) ?w1" by simp_all
    with tr show "r = Panic (PanicErr m) \<and> evs = []" by (simp add: emit_simps)
  qed
  have bound: "\<And>s. get_err e ?h1 ?key = None \<Longrightarrow> kv w ?key = Some s \<Longrightarrow> r = Ok s \<and> evs = []"
  proof -
    fix s assume g: "get_err e ?h1 ?key = None" and b: "kv w ?key = Some s"
    have "publish_serial e name ?w1 = (Ok s, emit (EtcdGet ?key) ?w1)"
      using g b by (intro publish_serial_bound) (simp_all add: t1 k1)
    with ps have "r = Ok s" "w2 = emit (EtcdGet ?key) ?w1" by simp_all
    with tr show "r = Ok s \<and> evs = []" by (simp add: emit_simps)
  qed
  have alloc: "(\<forall>h k. get_err e h k = None) \<Longrightarrow> (\<forall>h k v. put_ok e h k v) \<Longrightarrow>
                 kv w ?key = None \<Longrightarrow> r = Ok ?sid \<and> evs = ?alloc"
  proof -
    assume g: "\<forall>h k. get_err e h k = None" and q: "\<forall>h k v. put_ok e h k v"
      and n: "kv w ?key = None"
    from n have n1: "kv ?w1 ?key = None" by (simp add: k1)
    from publish_serial_absent_ok [OF g q n1]
    have "r = Ok ?sid" and "trace w2 = trace ?w1 @ EtcdGet ?key # ?alloc"
      unfolding ps fst_conv snd_conv k1 by simp_all
    with tr show "r = Ok ?sid \<and> evs = ?alloc" by simp
  qed
  show "\<exists>store_evs rest. ?P store_evs rest"
  proof (cases r)
    case (Panic p)
    with ok ps have pb: "?res = (Panic p, w2)"
      by (simp add: publish_def wrapper_Exec_def)
    have p1: "trace (snd ?res) =
        trace w @ [Exec node (drive_add_cmd name), EtcdGet ?key] @ evs @ []"
      unfolding pb snd_conv tr t1 by simp
    have p3: "list_all (\<lambda>ev. \<not> is_store ev) []" by simp
    from sh Panic have "(\<exists>m. p = PanicErr m) \<or> p = IndexOutOfRange" by simp
    then have p4: "([] = ([]::event list) \<and> ((\<exists>m. fst ?res = Panic (PanicErr m))
                            \<or> fst ?res = Panic IndexOutOfRange))
             \<or> (\<exists>serial tl. [] = Exec node (device_add_cmd name serial) # tl
                  \<and> kv (snd ?res) ?key = Some serial)"
      unfolding pb fst_conv by simp
    have p5: "\<forall>m. get_err e ?h1 ?key = Some m \<longrightarrow>
                evs = [] \<and> [] = ([]::event list) \<and> fst ?res = Panic (PanicErr m)"
    proof (intro allI impI)
      fix m assume g: "get_err e ?h1 ?key = Some m"
      from fails [OF g] Panic have "p = PanicErr m" "evs = []" by simp_all
      then show "evs = [] \<and> [] = ([]::event list) \<and> fst ?res = Panic (PanicErr m)"
        unfolding pb fst_conv by simp
    qed
    have p6: "\<forall>s. get_err e ?h1 ?key = None \<longrightarrow> kv w ?key = Some s \<longrightarrow>
                evs = [] \<and> (\<exists>tl. [] = Exec node (device_add_cmd name s) # tl)"
    proof (intro allI impI)
      fix s assume g: "get_err e ?h1 ?key = None" and b: "kv w ?key = Some s"
      from bound [OF g b] Panic have False by simp
      then show "evs = [] \<and> (\<exists>tl. [] = Exec node (device_add_cmd name s) # tl)" ..
    qed
    have p8: "(\<forall>h k. get_err e h k = None) \<longrightarrow> (\<forall>h k v. put_ok e h k v) \<longrightarrow>
                kv w ?key = None \<longrightarrow>
                evs = ?alloc \<and> (\<exists>tl. [] = Exec node (device_add_cmd name ?sid) # tl)"
    proof (intro impI)
      assume g: "\<forall>h k. get_err e h k = None" and q: "\<forall>h k v. put_ok e h k v"
        and n: "kv w ?key = None"
      from alloc [OF g q n] Panic have False by simp
      then show "evs = ?alloc \<and> (\<exists>tl. [] = Exec node (device_add_cmd name ?sid) # tl)" ..
    qed
    have "?P evs []"
      by (intro conjI; (rule p1 st p3 p4 p5 p6 c p8))
    then show ?thesis by (intro exI)
  next
    case (Ok serial)
    with ok ps have pb: "?res = publish_device e name node serial w2"
      by (simp add: publish_def wrapper_Exec_def)
    obtain tl where dv: "trace (snd (publish_device e name node serial w2)) =
        trace w2 @ Exec node (device_add_cmd name serial) # tl"
      and ns: "list_all (\<lambda>ev. \<not> is_store ev) tl"
      using publish_device_trace by blast
    let ?rest = "Exec node (device_add_cmd name serial) # tl"
    have p1: "trace (snd ?res) =
        trace w @ [Exec node (drive_add_cmd name), EtcdGet ?key] @ evs @ ?rest"
      unfolding pb dv tr t1 by simp
    have p3: "list_all (\<lambda>ev. \<not> is_store ev) ?rest"
      using ns by (simp add: is_store_def)
    from sh Ok have kvs: "kv (snd ?res) ?key = Some serial"
      unfolding pb by (simp add: publish_device_kv)
    have p4: "(?rest = [] \<and> ((\<exists>m. fst ?res = Panic (PanicErr m))
                            \<or> fst ?res = Panic IndexOutOfRange))
             \<or> (\<exists>serial' tl'. ?rest = Exec node (device_add_cmd name serial') # tl'
                  \<and> kv (snd ?res) ?key = Some serial')"
    proof (rule disjI2)
      from kvs have "?rest = Exec node (device_add_cmd name serial) # tl
                  \<and> kv (snd ?res) ?key = Some serial" by simp
      then show "\<exists>serial' tl'. ?rest = Exec node (device_add_cmd name serial') # tl'
                  \<and> kv (snd ?res) ?key = Some serial'" by (intro exI)
    qed
    have p5: "\<forall>m. get_err e ?h1 ?key = Some m \<longrightarrow>
                evs = [] \<and> ?rest = [] \<and> fst ?res = Panic (PanicErr m)"
    proof (intro allI impI)
      fix m assume g: "get_err e ?h1 ?key = Some m"
      from fails [OF g] Ok have False by simp
      then show "evs = [] \<and> ?rest = [] \<and> fst ?res = Panic (PanicErr m)" ..
    qed
    have p6: "\<forall>s. get_err e ?h1 ?key = None \<longrightarrow> kv w ?key = Some s \<longrightarrow>
                evs = [] \<and> (\<exists>tl'. ?rest = Exec node (device_add_cmd name s) # tl')"
    proof (intro allI impI)
      fix s assume g: "get_err e ?h1 ?key = None" and b: "kv w ?key = Some s"
      from bound [OF g b] Ok have "serial = s" "evs = []" by simp_all
      then show "evs = [] \<and> (\<exists>tl'. ?rest = Exec node (device_add_cmd name s) # tl')"
        by simp
    qed
    have p8: "(\<forall>h k. get_err e h k = None) \<longrightarrow> (\<forall>h k v. put_ok e h k v) \<longrightarrow>
                kv w ?key = None \<longrightarrow>
                evs = ?alloc \<and> (\<exists>tl'. ?rest = Exec node (device_add_cmd name ?sid) # tl')"
    proof (intro impI)
      assume g: "\<forall>h k. get_err e h k = None" and q: "\<forall>h k v. put_ok e h k v"
        and n: "kv w ?key = None"
      from alloc [OF g q n] Ok have "serial = ?sid" "evs = ?alloc" by simp_all
      then show "evs = ?alloc \<and> (\<exists>tl'. ?rest = Exec node (device_add_cmd name ?sid) # tl')"
        by simp
    qed
    have "?P evs ?rest"
      by (intro conjI; (rule p1 st p3 p4 p5 p6 c p8))
    then show ?thesis by (intro exI)
  qed
qed

theorem publish_order_witness:
  "(\<exists>store_evs rest.
      trace (snd (publish env_ok ''vol-a'' ''host-1'' world0)) =
        [Exec ''host-1'' (drive_add_cmd ''vol-a''), EtcdGet ''/xiaomakai/vol-a''] @ store_evs @ rest
      \<and> store_evs = [EtcdGet ''/xiaomakai/id'', EtcdPut ''/xiaomakai/id'' ''1'',
                      EtcdPut ''/xiaomakai/vol-a'' ''0'', EtcdGet ''/xiaomakai/vol-a'']
      \<and> (\<exists>tl. rest = Exec ''host-1'' (device_add_cmd ''vol-a'' ''0'') # tl))
   \<and> publish env_reject ''vol-b'' ''host-2'' world_bound_b =
        (Ok (), world_bound_b\<lparr>trace := trace world_bound_b @
           [Exec ''host-2'' (drive_add_cmd ''vol-b''), StatusCode 500, JSON ''rejected'',
            Log ''publish err: rejected'']\<rparr>)"
proof (rule conjI)
  have ok: "exec_err env_ok (trace world0) ''host-1'' (drive_add_cmd ''vol-a'') = None"
    by (simp add: env_ok_def)
  have g: "\<forall>h k. get_err env_ok h k = None" and p: "\<forall>h k v. put_ok env_ok h k v"
    by (simp_all add: env_ok_def)
  have n: "kv world0 (''/xiaomakai/'' @ ''vol-a'') = None" by (simp add: world0_def)
  have c: "kv world0 ''/xiaomakai/id'' = None" by (simp add: world0_def)
  note t = publish_order [of env_ok world0 "''host-1''" "''vol-a''", THEN conjunct2, THEN mp, OF ok]
  from t show "\<exists>store_evs rest.
      trace (snd (publish env_ok ''vol-a'' ''host-1'' world0)) =
        [Exec ''host-1'' (drive_add_cmd ''vol-a''), EtcdGet ''/xiaomakai/vol-a''] @ store_evs @ rest
      \<and> store_evs = [EtcdGet ''/xiaomakai/id'', EtcdPut ''/xiaomakai/id'' ''1'',
                      EtcdPut ''/xiaomakai/vol-a'' ''0'', EtcdGet ''/xiaomakai/vol-a'']
      \<and> (\<exists>tl. rest = Exec ''host-1'' (device_add_cmd ''vol-a'' ''0'') # tl)"
  proof (elim exE conjE)
    fix store_evs rest
    assume tr: "trace (snd (publish env_ok ''vol-a'' ''host-1'' world0)) =
          trace world0 @ [Exec ''host-1'' (drive_add_cmd ''vol-a''), EtcdGet (''/xiaomakai/'' @ ''vol-a'')]
            @ store_evs @ rest"
    assume al: "(\<forall>h k. get_err env_ok h k = None) \<longrightarrow> (\<forall>h k v. put_ok env_ok h k v) \<longrightarrow>
       kv world0 (''/xiaomakai/'' @ ''vol-a'') = None \<longrightarrow>
       store_evs =
         [EtcdGet ''/xiaomakai/id'',
          EtcdPut ''/xiaomakai/id''
            (case kv world0 ''/xiaomakai/id'' of None \<Rightarrow> ''1''
             | Some v \<Rightarrow> Sprintf_d (wrap64 (Atoi v + 1))),
          EtcdPut (''/xiaomakai/'' @ ''vol-a'')
            (case kv world0 ''/xiaomakai/id'' of None \<Rightarrow> ''0'' | Some v \<Rightarrow> v),
          EtcdGet (''/xiaomakai/'' @ ''vol-a'')]
       \<and> (\<exists>tl. rest = Exec ''host-1''
              (device_add_cmd ''vol-a''
                 (case kv world0 ''/xiaomakai/id'' of None \<Rightarrow> ''0'' | Some v \<Rightarrow> v)) # tl)"
    note al' = al [THEN mp, OF g, THEN mp, OF p, THEN mp, OF n, unfolded c option.case]
    from al' have a1: "store_evs = [EtcdGet ''/xiaomakai/id'', EtcdPut ''/xiaomakai/id'' ''1'',
                      EtcdPut ''/xiaomakai/vol-a'' ''0'', EtcdGet ''/xiaomakai/vol-a'']"
      by simp
    from al' have a2: "\<exists>tl. rest = Exec ''host-1'' (device_add_cmd ''vol-a'' ''0'') # tl"
      by (rule conjunct2)
    from tr have tr': "trace (snd (publish env_ok ''vol-a'' ''host-1'' world0)) =
        [Exec ''host-1'' (drive_add_cmd ''vol-a''), EtcdGet ''/xiaomakai/vol-a''] @ store_evs @ rest"
      by (simp add: world0_def)
    from tr' a1 a2 have body:
      "trace (snd (publish env_ok ''vol-a'' ''host-1'' world0)) =
        [Exec ''host-1'' (drive_add_cmd ''vol-a''), EtcdGet ''/xiaomakai/vol-a''] @ store_evs @ rest
      \<and> store_evs = [EtcdGet ''/xiaomakai/id'', EtcdPut ''/xiaomakai/id'' ''1'',
                      EtcdPut ''/xiaomakai/vol-a'' ''0'', EtcdGet ''/xiaomakai/vol-a'']
      \<and> (\<exists>tl. rest = Exec ''host-1'' (device_add_cmd ''vol-a'' ''0'') # tl)"
      by (intro conjI)
    show ?thesis
      by (rule exI [where x = store_evs], rule exI [where x = rest], rule body)
  qed
next
  have rej: "exec_err env_reject (trace world_bound_b) ''host-2'' (drive_add_cmd ''vol-b'') = Some ''rejected''"
    by (simp add: env_reject_def world_bound_b_def)
  note t = publish_order [of env_reject world_bound_b "''host-2''" "''vol-b''", THEN conjunct1,
             THEN spec, THEN mp, OF rej]
  from t show "publish env_reject ''vol-b'' ''host-2'' world_bound_b =
        (Ok (), world_bound_b\<lparr>trace := trace world_bound_b @
           [Exec ''host-2'' (drive_add_cmd ''vol-b''), StatusCode 500, JSON ''rejected'',
            Log ''publish err: rejected'']\<rparr>)"
    by simp
qed

text \<open>
  C6: when the volume has a binding, Publish leaves the store as it is, its only request
  to the store is the one \<open>Get\<close> of the binding (none when \<open>drive_add\<close> failed), so \<open>NextID\<close>
  is not run and nothing is written; a \<open>device_add\<close> it sends carries the bound serial,
  and it sends one whenever \<open>drive_add\<close> succeeded and the \<open>Get\<close> was answered.
\<close>

theorem publish_bound_reuses:
  assumes "kv w (''/xiaomakai/'' @ name) = Some serial"
  shows "kv (snd (publish e name node w)) = kv w
       \<and> filter is_store (new_events w (snd (publish e name node w))) =
           (case exec_err e (trace w) node (drive_add_cmd name) of
              None \<Rightarrow> [EtcdGet (''/xiaomakai/'' @ name)] | Some m \<Rightarrow> [])
       \<and> (\<forall>node' s. Exec node' (device_add_cmd name s) \<in> set (new_events w (snd (publish e name node w)))
             \<longrightarrow> node' = node \<and> s = serial)
       \<and> (exec_err e (trace w) node (drive_add_cmd name) = None \<longrightarrow>
          get_err e (trace w @ [Exec node (drive_add_cmd name)]) (''/xiaomakai/'' @ name) = None \<longrightarrow>
             Exec node (device_add_cmd name serial) \<in> set (new_events w (snd (publish e name node w))))"
  using assms
  by (auto simp: handlers prims new_events_def is_store_def device_add_cmd_def drive_add_cmd_def split: option.splits)

theorem publish_bound_reuses_witness:
  "kv world_first ''/xiaomakai/vol-a'' = Some ''0''
   \<and> kv (snd (publish env_ok ''vol-a'' ''host-1'' world_first)) = kv world_first
   \<and> filter is_store (new_events world_first (snd (publish env_ok ''vol-a'' ''host-1'' world_first)))
       = [EtcdGet ''/xiaomakai/vol-a'']
   \<and> Exec ''host-1'' ''device_add virtio-blk-pci,drive=vol-a,id=vol-a,serial=0''
       \<in> set (new_events world_first (snd (publish env_ok ''vol-a'' ''host-1'' world_first)))"
proof -
  have k: "kv world_first (''/xiaomakai/'' @ ''vol-a'') = Some ''0''"
    by (simp add: world_first_eq)
  have x: "exec_err env_ok (trace world_first) ''host-1'' (drive_add_cmd ''vol-a'') = None"
    by (simp add: env_ok_def)
  have g: "get_err env_ok (trace world_first @ [Exec ''host-1'' (drive_add_cmd ''vol-a'')]) (''/xiaomakai/'' @ ''vol-a'') = None"
    by (simp add: env_ok_def)
  have c: "device_add_cmd ''vol-a'' ''0'' = ''device_add virtio-blk-pci,drive=vol-a,id=vol-a,serial=0''"
    by (simp add: device_add_cmd_def)
  note t = publish_bound_reuses [OF k, of env_ok "''host-1''"]
  from t x g have m: "Exec ''host-1'' (device_add_cmd ''vol-a'' ''0'') \<in> set (new_events world_first (snd (publish env_ok ''vol-a'' ''host-1'' world_first)))"
    by blast
  from t x have f: "filter is_store (new_events world_first (snd (publish env_ok ''vol-a'' ''host-1'' world_first)))
       = [EtcdGet (''/xiaomakai/'' @ ''vol-a'')]" by simp
  from t have kk: "kv (snd (publish env_ok ''vol-a'' ''host-1'' world_first)) = kv world_first" by blast
  from k kk f m c show ?thesis by simp
qed




text \<open>
  C3, as the specification has it: a failed \<open>device_add\<close> followed by a failed \<open>drive_del\<close>
  is reported to the caller as a structured error, not raised. The handler logs the
  error and panics; no status and no body are set.
\<close>

theorem publish_double_failure_counterexample:
  "fst (publish env_reject ''vol-b'' ''host-2'' world0) = Panic (LogPanic ''error: rejected'')
   \<and> filter is_reply (trace (snd (publish env_reject ''vol-b'' ''host-2'' world0))) = [Log ''error: rejected'']"
  unfolding publish_reject_run
  by (simp add: publish_device_def prims env_reject_def world_bound_b_def is_reply_def)

text \<open>
  C3, amended: when \<open>device_add\<close> fails and the compensating \<open>drive_del\<close> fails as well, the
  handler logs "error: " followed by the error of \<open>drive_del\<close> and panics with that line
  (\<open>log.Panicln\<close>); it sets no status and writes no body.
\<close>

theorem publish_double_failure:
  assumes "exec_err e (trace w) node (drive_add_cmd name) = None"
      and "publish_serial e name (emit (Exec node (drive_add_cmd name)) w) = (Ok serial, w2)"
      and "exec_err e (trace w2) node (device_add_cmd name serial) = Some m1"
      and "exec_err e (trace w2 @ [Exec node (device_add_cmd name serial)]) node (''drive_del '' @ name) = Some m2"
  shows "publish e name node w =
           (Panic (LogPanic (''error: '' @ m2)),
            w2\<lparr>trace := trace w2 @ [Exec node (device_add_cmd name serial),
                                    Exec node (''drive_del '' @ name), Log (''error: '' @ m2)]\<rparr>)"
  using assms by (simp add: publish_def publish_device_def prims)

theorem publish_double_failure_witness:
  "publish env_reject ''vol-b'' ''host-2'' world0 =
     (Panic (LogPanic ''error: rejected''),
      world_bound_b\<lparr>trace := trace world_bound_b @
         [Exec ''host-2'' ''device_add virtio-blk-pci,drive=vol-b,id=vol-b,serial=0'',
          Exec ''host-2'' ''drive_del vol-b'', Log ''error: rejected'']\<rparr>)"
proof -
  have a: "exec_err env_reject (trace world0) ''host-2'' (drive_add_cmd ''vol-b'') = None"
    by (simp add: env_reject_def world0_def)
  have s: "publish_serial env_reject ''vol-b'' (emit (Exec ''host-2'' (drive_add_cmd ''vol-b'')) world0)
             = (Ok ''0'', world_bound_b)"
    by (rule publish_serial_fresh) (simp_all add: env_reject_def)
  have d: "exec_err env_reject (trace world_bound_b) ''host-2'' (device_add_cmd ''vol-b'' ''0'') = Some ''rejected''"
    by (simp add: env_reject_def world_bound_b_def)
  have c: "exec_err env_reject (trace world_bound_b @ [Exec ''host-2'' (device_add_cmd ''vol-b'' ''0'')])
             ''host-2'' (''drive_del '' @ ''vol-b'') = Some ''rejected''"
    by (simp add: env_reject_def)
  from publish_double_failure [OF a s d c] show ?thesis
    by (simp add: device_add_cmd_def)
qed

text \<open>
  The other branch, on a host that rejects \<open>device_add\<close> only: the status is set to 500
  and the handler then stops at \<open>err.Error()\<close>, \<open>err\<close> being the nil result of \<open>drive_del\<close>.
\<close>

lemma publish_compensated_run:
  "publish env_no_device ''vol-b'' ''host-2'' world0 =
     (Panic NilDeref,
      world_bound_b\<lparr>trace := trace world_bound_b @
         [Exec ''host-2'' ''device_add virtio-blk-pci,drive=vol-b,id=vol-b,serial=0'',
          Exec ''host-2'' ''drive_del vol-b'', StatusCode 500]\<rparr>)"
  unfolding publish_no_device_run
  by (simp add: publish_device_def prims env_no_device_def world_bound_b_def
        device_add_cmd_def)

subsection \<open>Decimal numerals\<close>

lemma digit_cases: "d < 10 \<Longrightarrow> d = 0 \<or> d = 1 \<or> d = 2 \<or> d = 3 \<or> d = 4 \<or> d = 5 \<or> d = 6 \<or> d = 7 \<or> d = 8 \<or> d = (9::nat)"
  by arith

lemma digit_char_props:
  assumes "d < 10"
  shows "is_digit (digit_char d)" "digit_val (digit_char d) = d"
  using digit_cases [OF assms]
  by (auto simp: is_digit_def digit_val_def digit_char_def)

text \<open>Reading digits after the number \<open>n\<close> already read.\<close>

lemma ParseUint_decimal:
  "n * 10 ^ length (decimal m) + m \<le> MaxUint64 \<Longrightarrow>
   ParseUint n (decimal m @ cs) = ParseUint (n * 10 ^ length (decimal m) + m) cs"
proof (induction m arbitrary: n cs rule: decimal.induct)
  case (1 m)
  show ?case
  proof (cases "m < 10")
    case True
    then have d: "decimal m = [digit_char m]" by (subst decimal.simps) simp
    from 1(2) d have b: "n * 10 + m \<le> MaxUint64" by simp
    then have "\<not> MaxUint64 div 10 + 1 \<le> n" by (simp add: MaxUint64_def)
    with True b show ?thesis by (simp add: d digit_char_props)
  next
    case False
    then have d: "decimal m = decimal (m div 10) @ [digit_char (m mod 10)]"
      by (subst decimal.simps) simp
    let ?k = "length (decimal (m div 10))"
    from 1(2) d have b: "n * 10 ^ ?k * 10 + m \<le> MaxUint64" by (simp add: mult.assoc)
    have m: "m = m div 10 * 10 + m mod 10" by simp
    have "(n * 10 ^ ?k + m div 10) * 10 + m mod 10 = n * 10 ^ ?k * 10 + m"
      by (subst (3) m) (simp add: algebra_simps)
    with b have b2: "(n * 10 ^ ?k + m div 10) * 10 + m mod 10 \<le> MaxUint64" by simp
    then have b1: "n * 10 ^ ?k + m div 10 \<le> MaxUint64" by simp
    from b2 have nc: "\<not> MaxUint64 div 10 + 1 \<le> n * 10 ^ ?k + m div 10"
      by (simp add: MaxUint64_def)
    have "ParseUint n (decimal m @ cs) = ParseUint n (decimal (m div 10) @ digit_char (m mod 10) # cs)"
      by (simp add: d)
    also have "\<dots> = ParseUint (n * 10 ^ ?k + m div 10) (digit_char (m mod 10) # cs)"
      using 1(1) [OF False b1] by simp
    also have "\<dots> = ParseUint ((n * 10 ^ ?k + m div 10) * 10 + m mod 10) cs"
      using nc b2 by (simp add: digit_char_props)
    also have "(n * 10 ^ ?k + m div 10) * 10 + m mod 10 = n * 10 ^ length (decimal m) + m"
      by (subst (3) m) (simp add: d algebra_simps)
    finally show ?thesis .
  qed
qed

lemma ParseUint_decimal_0:
  assumes "m \<le> MaxUint64"
  shows "ParseUint 0 (decimal m) = Some m"
  using ParseUint_decimal [of 0 m "[]"] assms by simp

lemma decimal_nonempty: "decimal m \<noteq> []"
  by (subst decimal.simps) simp

lemma hd_decimal: "\<exists>c cs. decimal n = c # cs \<and> is_digit c"
proof (induction n rule: decimal.induct)
  case (1 n)
  show ?case
  proof (cases "n < 10")
    case True
    then show ?thesis by (subst decimal.simps) (simp add: digit_char_props)
  next
    case False
    with 1 obtain c cs where "decimal (n div 10) = c # cs \<and> is_digit c" by blast
    with False show ?thesis by (subst decimal.simps) simp
  qed
qed

lemma is_digit_not_sign: "is_digit c \<Longrightarrow> c \<noteq> CHR ''-'' \<and> c \<noteq> CHR ''+''"
  by (auto simp: is_digit_def)

lemma Sprintf_d_nat_inj:
  assumes "m \<le> MaxUint64" "n \<le> MaxUint64" "Sprintf_d (int m) = Sprintf_d (int n)"
  shows "m = n"
proof -
  from assms(3) have "decimal m = decimal n" by (simp add: Sprintf_d_def)
  then have "ParseUint 0 (decimal m) = ParseUint 0 (decimal n)" by simp
  with assms(1,2) show ?thesis by (simp add: ParseUint_decimal_0)
qed

lemma Atoi_Sprintf_d:
  assumes "n < 2 ^ 63"
  shows "Atoi (Sprintf_d (int n)) = int n"
proof -
  obtain c cs where d: "decimal n = c # cs" "is_digit c" using hd_decimal by blast
  from d(2) have s: "c \<noteq> CHR ''-''" "c \<noteq> CHR ''+''" using is_digit_not_sign by auto
  from assms have "n \<le> MaxUint64" by (simp add: MaxUint64_def)
  then have p: "ParseUint 0 (c # cs) = Some n" using ParseUint_decimal_0 [of n] d by simp
  from assms have "\<not> 9223372036854775808 \<le> n" by simp
  with d s p show ?thesis
    by (simp add: Atoi_def Sprintf_d_def Let_def del: ParseUint.simps)
qed

lemma wrap64_small: "0 \<le> i \<Longrightarrow> i < 2 ^ 63 \<Longrightarrow> wrap64 i = i"
  by (simp add: wrap64_def)

subsection \<open>Concurrent calls of NextID\<close>

text \<open>Run alone, the two steps of a caller are \<open>NextID\<close>.\<close>

lemma NextID_is_two_steps:
  "run e [0, 0] (w, [(k, Ready)]) =
     (case NextID e w of
        (Ok v, w') \<Rightarrow> (w', [(k, Returned v)])
      | (Panic p, w') \<Rightarrow> (w', [(k, Crashed (case p of PanicErr m \<Rightarrow> m | _ \<Rightarrow> []))]))"
  by (simp add: step_def mutex_held_def holds_mutex_def NextID_def etcd_Get_def split: option.splits prod.splits)

text \<open>
  C1, as the specification has it: the serials of concurrent calls across any number of
  instances are pairwise distinct, the write being conditional on the value read. The
  write is a plain \<open>Put\<close> and the mutex is local to a process: two calls in two instances
  that both read before either writes return the same serial.
\<close>

theorem NextID_two_instances_counterexample:
  "returned (snd (run env_ok [0, 1, 0, 1] (world0, [(0, Ready), (1, Ready)]))) = [''0'', ''0'']"
  by (simp add: step_def mutex_held_def holds_mutex_def NextID_write_def prims env_ok_def world0_def returned_def serial_of_def)

lemma returned_append: "returned (xs @ ys) = returned xs @ returned ys"
  by (simp add: returned_def)

lemma returned_Cons: "returned (c # cs) = serial_of c @ returned cs"
  by (simp add: returned_def)

lemma length_returned_le: "length (returned cs) \<le> length cs"
  by (induction cs) (auto simp: returned_def serial_of_def split: call.splits)

lemma returned_split:
  assumes "i < length cs"
  shows "returned cs = returned (take i cs) @ serial_of (cs ! i) @ returned (drop (Suc i) cs)"
proof -
  from assms have "cs = take i cs @ cs ! i # drop (Suc i) cs" by (rule id_take_nth_drop)
  then have "returned cs = returned (take i cs @ cs ! i # drop (Suc i) cs)" by simp
  then show ?thesis by (simp only: returned_append returned_Cons)
qed

lemma returned_update:
  assumes "i < length cs"
  shows "returned (cs[i := c]) = returned (take i cs) @ serial_of c @ returned (drop (Suc i) cs)"
proof -
  from assms have "cs[i := c] = take i cs @ c # drop (Suc i) cs" by (rule upd_conv_take_nth_drop)
  then show ?thesis by (simp only: returned_append returned_Cons)
qed

lemma returned_update_same:
  assumes "i < length cs" "serial_of (cs ! i) = []" "serial_of c = []"
  shows "returned (cs[i := c]) = returned cs"
  using returned_split [OF assms(1)] returned_update [OF assms(1), of c] assms(2,3) by simp

lemma returned_lt_length:
  assumes "i < length cs" "serial_of (cs ! i) = []"
  shows "length (returned cs) < length cs"
proof -
  have "length (returned cs) = length (returned (take i cs)) + length (returned (drop (Suc i) cs))"
    using returned_split [OF assms(1)] assms(2) by simp
  also have "\<dots> \<le> length (take i cs) + length (drop (Suc i) cs)"
    using length_returned_le add_mono by blast
  also have "\<dots> < length cs" using assms(1) by simp
  finally show ?thesis .
qed

lemma Sprintf_d_0: "Sprintf_d 0 = ''0''"
  by (simp add: Sprintf_d_def decimal.simps digit_char_def)

lemma Sprintf_d_1: "Sprintf_d (wrap64 1) = ''1''"
  by (simp add: Sprintf_d_def decimal.simps digit_char_def wrap64_def)

lemma NextID_write_ctr:
  assumes "m < 2 ^ 63" and "\<forall>h k v. put_ok e h k v"
  shows "fst (NextID_write e (ctr m) w) = Sprintf_d (int m)
       \<and> kv (snd (NextID_write e (ctr m) w)) = (kv w)(''/xiaomakai/id'' := ctr (Suc m))"
proof (cases m)
  case 0
  with assms(2) show ?thesis
    by (simp add: NextID_write_def etcd_Put_def emit_def Sprintf_d_0 Sprintf_d_1)
next
  case (Suc j)
  from assms(1) have w: "wrap64 (int m) = int m" by (simp add: wrap64_small)
  from assms(1) have a: "Atoi (Sprintf_d (int m)) = int m" by (rule Atoi_Sprintf_d)
  have "ctr m = Some (Sprintf_d (int m))" using Suc w by simp
  with assms(2) a show ?thesis
    by (simp add: NextID_write_def etcd_Put_def emit_def add.commute)
qed

lemma serials_upto_Suc: "serials_upto (Suc m) = insert (Sprintf_d (int m)) (serials_upto m)"
  by (auto simp: serials_upto_def atLeast0_lessThan_Suc)

lemma fresh_serial:
  assumes "m \<le> MaxUint64"
  shows "Sprintf_d (int m) \<notin> serials_upto m"
proof
  assume "Sprintf_d (int m) \<in> serials_upto m"
  then obtain i where i: "i < m" "Sprintf_d (int m) = Sprintf_d (int i)"
    by (auto simp: serials_upto_def)
  with assms have "m = i" using Sprintf_d_nat_inj [of m i] by simp
  with i show False by simp
qed

lemma inv_step:
  assumes get: "\<forall>h k. get_err e h k = None" and put: "\<forall>h k v. put_ok e h k v"
      and i: "inv k (w, cs)"
  shows "inv k (step e i (w, cs))"
proof (cases "i < length cs")
  case False
  with i show ?thesis by (simp add: step_def)
next
  case lt: True
  obtain k' st where ci: "cs ! i = (k', st)" by (cases "cs ! i")
  from i lt ci have k': "k' = k" by (auto simp: inv_def dest!: nth_mem)
  show ?thesis
  proof (cases st)
    case Ready
    show ?thesis
    proof (cases "mutex_held cs k")
      case True
      with i lt ci k' Ready show ?thesis by (simp add: step_def)
    next
      case False
      then have free: "\<forall>j<length cs. \<not> holds_mutex (snd (cs ! j))"
        using i by (auto simp: mutex_held_def list_ex_iff inv_def dest!: nth_mem)
      have s: "step e i (w, cs) = (emit (EtcdGet ''/xiaomakai/id'') w, cs[i := (k, Fetched (kv w ''/xiaomakai/id''))])"
        using lt ci k' Ready False get by (simp add: step_def etcd_Get_def)
      have r: "returned (cs[i := (k, Fetched (kv w ''/xiaomakai/id''))]) = returned cs"
        using lt ci Ready by (intro returned_update_same) (simp_all add: serial_of_def)
      have m: "\<forall>c\<in>set (cs[i := (k, Fetched (kv w ''/xiaomakai/id''))]). fst c = k"
        using i by (auto simp: inv_def dest!: set_update_subset_insert [THEN subsetD])
      have f: "\<forall>j<length cs. \<forall>r. snd (cs[i := (k, Fetched (kv w ''/xiaomakai/id''))] ! j) = Fetched r \<longrightarrow>
          r = kv w ''/xiaomakai/id'' \<and> (\<forall>j'<length cs. holds_mutex (snd (cs[i := (k, Fetched (kv w ''/xiaomakai/id''))] ! j')) \<longrightarrow> j' = j)"
        using free lt by (auto simp: nth_list_update holds_mutex_def split: if_splits)
      from i r m f show ?thesis unfolding s by (simp add: inv_def emit_def)
    qed
  next
    case (Fetched r)
    from i lt ci Fetched have rk: "r = kv w ''/xiaomakai/id''"
      and only: "\<forall>j<length cs. holds_mutex (snd (cs ! j)) \<longrightarrow> j = i"
      by (auto simp: inv_def)
    let ?m = "length (returned cs)"
    have e0: "serial_of (cs ! i) = []" using ci Fetched by (simp add: serial_of_def)
    have mlt: "?m < length cs" using lt e0 by (rule returned_lt_length)
    from i have len: "length cs \<le> 2 ^ 63" by (simp add: inv_def)
    with mlt have m63: "?m < 2 ^ 63" by simp
    from i rk have rc: "r = ctr ?m" by (simp add: inv_def)
    note nw = NextID_write_ctr [OF m63 put, of w]
    obtain v w1 where vw: "NextID_write e r w = (v, w1)" by (cases "NextID_write e r w")
    with nw rc have v: "v = Sprintf_d (int ?m)" and kv1: "kv w1 ''/xiaomakai/id'' = ctr (Suc ?m)" by auto
    have s: "step e i (w, cs) = (w1, cs[i := (k, Returned v)])"
      using lt ci k' Fetched vw by (simp add: step_def)
    have r1: "returned (cs[i := (k, Returned v)]) = returned (take i cs) @ [v] @ returned (drop (Suc i) cs)"
      using returned_update [OF lt, of "(k, Returned v)"] by (simp add: serial_of_def)
    have r0: "returned cs = returned (take i cs) @ returned (drop (Suc i) cs)"
      using returned_split [OF lt] e0 by simp
    from i have d0: "distinct (returned cs)" and s0: "set (returned cs) = serials_upto ?m"
      by (simp_all add: inv_def)
    from m63 have "length (returned cs) \<le> MaxUint64" by (simp add: MaxUint64_def)
    then have fresh: "v \<notin> set (returned cs)" using s0 v fresh_serial by simp
    have l1: "length (returned (cs[i := (k, Returned v)])) = Suc ?m"
      using r1 r0 by simp
    have d1: "distinct (returned (cs[i := (k, Returned v)]))"
      using d0 fresh unfolding r1 r0 by auto
    have s1: "set (returned (cs[i := (k, Returned v)])) = serials_upto (Suc ?m)"
      using s0 v unfolding r1 r0 serials_upto_Suc by auto
    have m: "\<forall>c\<in>set (cs[i := (k, Returned v)]). fst c = k"
      using i by (auto simp: inv_def dest!: set_update_subset_insert [THEN subsetD])
    have f: "\<forall>j<length cs. \<forall>r. snd (cs[i := (k, Returned v)] ! j) \<noteq> Fetched r"
      using only lt by (auto simp: nth_list_update holds_mutex_def split: if_splits)
    from m f kv1 l1 d1 s1 len show ?thesis unfolding s by (simp add: inv_def)
  next
    case (Returned v)
    with i lt ci show ?thesis by (simp add: step_def)
  next
    case (Crashed m)
    with i lt ci show ?thesis by (simp add: step_def)
  qed
qed

lemma inv_run:
  assumes get: "\<forall>h k. get_err e h k = None" and put: "\<forall>h k v. put_ok e h k v"
  shows "inv k c \<Longrightarrow> inv k (run e sched c)"
proof (induction sched arbitrary: c)
  case Nil
  then show ?case by simp
next
  case (Cons i sched)
  obtain w cs where c: "c = (w, cs)" by (cases c)
  from Cons.prems have "inv k (step e i c)" unfolding c by (rule inv_step [OF get put])
  then show ?case using Cons.IH by simp
qed

lemma returned_replicate_Ready: "returned (replicate n (k, Ready)) = []"
  by (induction n) (simp_all add: returned_def serial_of_def)

lemma inv_init:
  assumes "kv w ''/xiaomakai/id'' = None" "n \<le> 2 ^ 63"
  shows "inv k (w, replicate n (k, Ready))"
  using assms by (simp add: inv_def returned_replicate_Ready serials_upto_def)

text \<open>
  C1, amended: for any number \<open>n\<close> (at most \<open>2 ^ 63\<close>) of concurrent calls inside one
  orchestrator instance, in any interleaving, on a store whose requests succeed, that no
  one else writes and whose counter key is absent at the start, the serials returned
  are pairwise distinct.
\<close>

theorem NextID_one_instance_distinct:
  assumes "\<forall>h key. get_err e h key = None" and "\<forall>h key v. put_ok e h key v"
      and "kv w ''/xiaomakai/id'' = None" and "n \<le> 2 ^ 63"
  shows "distinct (returned (snd (run e sched (w, replicate n (k, Ready)))))"
proof -
  have "inv k (run e sched (w, replicate n (k, Ready)))"
    using assms by (intro inv_run inv_init)
  then show ?thesis by (cases "run e sched (w, replicate n (k, Ready))") (simp add: inv_def)
qed

lemma two_ready: "replicate 2 (0::nat, Ready) = [(0, Ready), (0, Ready)]"
  by (simp add: numeral_2_eq_2)

lemma next_serial_1: "Sprintf_d (wrap64 (Atoi ''1'' + 1)) = ''2''"
  by (simp add: Atoi_def is_digit_def digit_val_def MaxUint64_def MaxInt64_def wrap64_def
        Sprintf_d_def decimal.simps digit_char_def)

theorem NextID_one_instance_distinct_witness:
  "distinct (returned (snd (run env_ok [0, 1, 0, 1, 1, 1] (world0, replicate 2 (0, Ready)))))
   \<and> returned (snd (run env_ok [0, 1, 0, 1, 1, 1] (world0, replicate 2 (0, Ready)))) = [''0'', ''1'']"
proof -
  have g: "\<forall>h key. get_err env_ok h key = None" by (simp add: env_ok_def)
  have p: "\<forall>h key v. put_ok env_ok h key v" by (simp add: env_ok_def)
  have k: "kv world0 ''/xiaomakai/id'' = None" by (simp add: world0_def)
  have n: "(2::nat) \<le> 2 ^ 63" by simp
  have r: "returned (snd (run env_ok [0, 1, 0, 1, 1, 1] (world0, replicate 2 (0, Ready)))) = [''0'', ''1'']"
    unfolding two_ready
    by (simp add: step_def mutex_held_def holds_mutex_def NextID_write_def prims env_ok_def
          world0_def returned_def serial_of_def next_serial_1)
  from NextID_one_instance_distinct [OF g p k n, of "[0, 1, 0, 1, 1, 1]" 0] r show ?thesis
    by simp
qed

subsection \<open>Endpoints\<close>

lemma DecodeRune_ascii: "byte c < 128 \<Longrightarrow> DecodeRune (c # t) = (byte c, 1)"
  by (simp add: DecodeRune_def)

lemma mod_shift:
  fixes b :: nat
  assumes "q * m \<le> b" "b < q * m + m"
  shows "b mod m = b - q * m"
proof -
  have "b = (b - q * m) + q * m" using assms(1) by simp
  then have "b mod m = ((b - q * m) + q * m) mod m" by simp
  also have "\<dots> = (b - q * m) mod m" by (metis mod_mult_self1 mult.commute)
  also have "\<dots> = b - q * m" using assms by simp
  finally show ?thesis .
qed
lemma lead2: "194 \<le> b \<Longrightarrow> b < 224 \<Longrightarrow> 2 \<le> (b::nat) mod 32"
  using mod_shift [of 6 32 b] by simp
lemma lead3: "224 < b \<Longrightarrow> b < 240 \<Longrightarrow> 1 \<le> (b::nat) mod 16"
  using mod_shift [of 14 16 b] by simp
lemma lead4: "240 < b \<Longrightarrow> b \<le> 244 \<Longrightarrow> 1 \<le> (b::nat) mod 8"
  using mod_shift [of 30 8 b] by simp
lemma cont_lo: "160 \<le> b \<Longrightarrow> b \<le> 191 \<Longrightarrow> 32 \<le> (b::nat) mod 64"
  using mod_shift [of 2 64 b] by simp
lemma cont_lo4: "144 \<le> b \<Longrightarrow> b \<le> 191 \<Longrightarrow> 16 \<le> (b::nat) mod 64"
  using mod_shift [of 2 64 b] by simp

text \<open>The five ways DecodeRune ends on a non-empty string.\<close>

lemma DecodeRune_cases [consumes 0, case_names ascii invalid two three four]:
  fixes c :: char and t :: string
  obtains
    "byte c < 128" "DecodeRune (c # t) = (byte c, 1)"
  | "128 \<le> byte c" "DecodeRune (c # t) = (RuneError, 1)"
  | c1 t' where "128 \<le> byte c" "t = c1 # t'" "128 \<le> byte c1" "rune_size (byte c) = 2"
      "DecodeRune (c # t) = (byte c mod 32 * 64 + byte c1 mod 64, 2)"
      "128 \<le> byte c mod 32 * 64 + byte c1 mod 64"
  | c1 c2 t' where "128 \<le> byte c" "t = c1 # c2 # t'" "128 \<le> byte c1" "128 \<le> byte c2"
      "rune_size (byte c) = 3"
      "DecodeRune (c # t) = (byte c mod 16 * 4096 + byte c1 mod 64 * 64 + byte c2 mod 64, 3)"
      "128 \<le> byte c mod 16 * 4096 + byte c1 mod 64 * 64 + byte c2 mod 64"
  | c1 c2 c3 t' where "128 \<le> byte c" "t = c1 # c2 # c3 # t'"
      "128 \<le> byte c1" "128 \<le> byte c2" "128 \<le> byte c3" "rune_size (byte c) = 4"
      "DecodeRune (c # t) =
         (byte c mod 8 * 262144 + byte c1 mod 64 * 4096 + byte c2 mod 64 * 64 + byte c3 mod 64, 4)"
      "128 \<le> byte c mod 8 * 262144 + byte c1 mod 64 * 4096 + byte c2 mod 64 * 64 + byte c3 mod 64"
proof -
  let ?b0 = "byte c"
  consider (a) "?b0 < 128" | (x) "128 \<le> ?b0" "?b0 < 194 \<or> 244 < ?b0"
    | (l2) "194 \<le> ?b0" "?b0 < 224" | (l3) "224 \<le> ?b0" "?b0 < 240" | (l4) "240 \<le> ?b0" "?b0 \<le> 244"
    by linarith
  then show thesis
  proof cases
    case a
    then show thesis using that(1) by (simp add: DecodeRune_def)
  next
    case x
    then have "DecodeRune (c # t) = (RuneError, 1)" by (auto simp: DecodeRune_def)
    with x show thesis using that(2) by simp
  next
    case l2
    then have sz: "rune_size ?b0 = 2" and lo: "accept_lo ?b0 = 128" and hi: "accept_hi ?b0 = 191"
      by (simp_all add: rune_size_def accept_lo_def accept_hi_def)
    show thesis
    proof (cases t)
      case Nil
      with l2 sz have "DecodeRune (c # t) = (RuneError, 1)" by (simp add: DecodeRune_def)
      with l2 show thesis using that(2) by simp
    next
      case (Cons c1 t')
      show thesis
      proof (cases "byte c1 < 128 \<or> 191 < byte c1")
        case True
        with l2 sz lo hi Cons have "DecodeRune (c # t) = (RuneError, 1)"
          by (simp add: DecodeRune_def)
        with l2 show thesis using that(2) by simp
      next
        case False
        with l2 sz lo hi Cons
        have d: "DecodeRune (c # t) = (?b0 mod 32 * 64 + byte c1 mod 64, 2)"
          by (simp add: DecodeRune_def)
        from lead2 [OF l2] have "128 \<le> ?b0 mod 32 * 64 + byte c1 mod 64" by simp
        with d l2 Cons False sz show thesis using that(3) [of c1 t'] by simp
      qed
    qed
  next
    case l3
    then have sz: "rune_size ?b0 = 3" by (simp add: rune_size_def)
    from l3 have lo: "accept_lo ?b0 = (if ?b0 = 224 then 160 else 128)"
      and hi: "accept_hi ?b0 = (if ?b0 = 237 then 159 else 191)"
      by (simp_all add: accept_lo_def accept_hi_def)
    show thesis
    proof (cases "length t < 2")
      case True
      with l3 sz have "DecodeRune (c # t) = (RuneError, 1)" by (simp add: DecodeRune_def)
      with l3 show thesis using that(2) by simp
    next
      case False
      then obtain c1 c2 t' where t: "t = c1 # c2 # t'"
        by (cases t; cases "tl t") auto
      show thesis
      proof (cases "byte c1 < accept_lo ?b0 \<or> accept_hi ?b0 < byte c1 \<or> byte c2 < 128 \<or> 191 < byte c2")
        case True
        with l3 sz t have "DecodeRune (c # t) = (RuneError, 1)"
          by (auto simp: DecodeRune_def Let_def)
        with l3 show thesis using that(2) by simp
      next
        case ok: False
        with l3 sz t
        have d: "DecodeRune (c # t) = (?b0 mod 16 * 4096 + byte c1 mod 64 * 64 + byte c2 mod 64, 3)"
          by (simp add: DecodeRune_def Let_def)
        from ok lo hi have c1: "128 \<le> byte c1" "byte c1 \<le> 191" "?b0 = 224 \<longrightarrow> 160 \<le> byte c1"
          by (auto split: if_splits)
        from ok have c2: "128 \<le> byte c2" by simp
        have "128 \<le> ?b0 mod 16 * 4096 + byte c1 mod 64 * 64 + byte c2 mod 64"
        proof (cases "?b0 = 224")
          case True
          with c1 have "32 \<le> byte c1 mod 64" using cont_lo by blast
          then show ?thesis by simp
        next
          case False
          with l3 have "1 \<le> ?b0 mod 16" using lead3 by simp
          then show ?thesis by simp
        qed
        with d l3 t c1 c2 sz show thesis using that(4) [of c1 c2 t'] by simp
      qed
    qed
  next
    case l4
    then have sz: "rune_size ?b0 = 4" by (simp add: rune_size_def)
    from l4 have lo: "accept_lo ?b0 = (if ?b0 = 240 then 144 else 128)"
      and hi: "accept_hi ?b0 = (if ?b0 = 244 then 143 else 191)"
      by (simp_all add: accept_lo_def accept_hi_def)
    show thesis
    proof (cases "length t < 3")
      case True
      with l4 sz have "DecodeRune (c # t) = (RuneError, 1)" by (simp add: DecodeRune_def)
      with l4 show thesis using that(2) by simp
    next
      case False
      then obtain c1 c2 c3 t' where t: "t = c1 # c2 # c3 # t'"
        by (cases t; cases "tl t"; cases "tl (tl t)") auto
      show thesis
      proof (cases "byte c1 < accept_lo ?b0 \<or> accept_hi ?b0 < byte c1 \<or> byte c2 < 128 \<or> 191 < byte c2
                    \<or> byte c3 < 128 \<or> 191 < byte c3")
        case True
        with l4 sz t have "DecodeRune (c # t) = (RuneError, 1)"
          by (auto simp: DecodeRune_def Let_def)
        with l4 show thesis using that(2) by simp
      next
        case ok: False
        with l4 sz t
        have d: "DecodeRune (c # t) =
          (?b0 mod 8 * 262144 + byte c1 mod 64 * 4096 + byte c2 mod 64 * 64 + byte c3 mod 64, 4)"
          by (simp add: DecodeRune_def Let_def)
        from ok lo hi have c1: "128 \<le> byte c1" "byte c1 \<le> 191" "?b0 = 240 \<longrightarrow> 144 \<le> byte c1"
          by (auto split: if_splits)
        from ok have c2: "128 \<le> byte c2" "128 \<le> byte c3" by simp_all
        have "128 \<le> ?b0 mod 8 * 262144 + byte c1 mod 64 * 4096 + byte c2 mod 64 * 64 + byte c3 mod 64"
        proof (cases "?b0 = 240")
          case True
          with c1 have "16 \<le> byte c1 mod 64" using cont_lo4 by blast
          then show ?thesis by simp
        next
          case False
          with l4 have "1 \<le> ?b0 mod 8" using lead4 by simp
          then show ?thesis by simp
        qed
        with d l4 t c1 c2 sz show thesis using that(5) [of c1 c2 c3 t'] by simp
      qed
    qed
  qed
qed


lemma DecodeRune_width:
  assumes "s \<noteq> []"
  shows "1 \<le> snd (DecodeRune s) \<and> snd (DecodeRune s) \<le> length s"
proof -
  from assms obtain c t where s: "s = c # t" by (cases s) auto
  show ?thesis unfolding s by (rule DecodeRune_cases [of c t]) auto
qed

text \<open>A rune below 128 is one ASCII byte; any other is made of bytes from 128 on.\<close>

lemma DecodeRune_chunk:
  "(fst (DecodeRune (c # t)) < 128 \<and> DecodeRune (c # t) = (byte c, 1) \<and> byte c < 128)
   \<or> (128 \<le> fst (DecodeRune (c # t)) \<and>
       (\<forall>d\<in>set (take (snd (DecodeRune (c # t))) (c # t)). 128 \<le> byte d))"
  by (rule DecodeRune_cases [of c t]) (auto simp: RuneError_def)

lemma DecodeRune_short:
  assumes "194 \<le> byte c" "byte c \<le> 244" "length (c # t) < rune_size (byte c)"
  shows "DecodeRune (c # t) = (RuneError, 1)"
  using assms by (simp add: DecodeRune_def)

lemma DecodeRune_bad_lead:
  assumes "128 \<le> byte c" "byte c < 194 \<or> 244 < byte c"
  shows "DecodeRune (c # t) = (RuneError, 1)"
  using assms by (auto simp: DecodeRune_def)

lemma DecodeRune_enough:
  assumes "194 \<le> byte c" "byte c \<le> 244" "rune_size (byte c) \<le> length (c # t)"
  shows "DecodeRune (c # t @ ys) = DecodeRune (c # t)"
proof -
  have "rune_size (byte c) = 2 \<or> rune_size (byte c) = 3 \<or> rune_size (byte c) = 4"
    by (simp add: rune_size_def)
  then consider "rune_size (byte c) = 2" | "rune_size (byte c) = 3" | "rune_size (byte c) = 4"
    by blast
  then show ?thesis
  proof cases
    case 1
    with assms obtain c1 t1 where "t = c1 # t1" by (cases t) auto
    with 1 assms show ?thesis by (simp add: DecodeRune_def Let_def)
  next
    case 2
    with assms obtain c1 c2 t1 where "t = c1 # c2 # t1" by (cases t; cases "tl t") auto
    with 2 assms show ?thesis by (simp add: DecodeRune_def Let_def)
  next
    case 3
    with assms obtain c1 c2 c3 t1 where "t = c1 # c2 # c3 # t1"
      by (cases t; cases "tl t"; cases "tl (tl t)") auto
    with 3 assms show ?thesis by (simp add: DecodeRune_def Let_def)
  qed
qed

text \<open>Decoding looks at no byte beyond the rune it returns.\<close>

lemma DecodeRune_local:
  assumes "snd (DecodeRune ((c # t) @ ys)) \<le> length (c # t)"
  shows "DecodeRune (c # t) = DecodeRune ((c # t) @ ys)"
proof (cases "byte c < 128")
  case True
  then show ?thesis by (simp add: DecodeRune_ascii)
next
  case hi: False
  show ?thesis
  proof (cases "byte c < 194 \<or> 244 < byte c")
    case True
    with hi show ?thesis by (simp add: DecodeRune_bad_lead)
  next
    case False
    then have lead: "194 \<le> byte c" "byte c \<le> 244" by auto
    show ?thesis
    proof (cases "rune_size (byte c) \<le> length (c # t)")
      case True
      with lead show ?thesis using DecodeRune_enough [of c t ys] by simp
    next
      case False
      then have short: "length (c # t) < rune_size (byte c)" by simp
      with lead have x: "DecodeRune (c # t) = (RuneError, 1)" by (rule DecodeRune_short)
      have "DecodeRune (c # t @ ys) = (RuneError, 1)"
        using assms short hi by (rule_tac DecodeRune_cases [of c "t @ ys"]) auto
      with x show ?thesis by simp
    qed
  qed
qed

lemma EncodeRune_ascii: "r < 128 \<Longrightarrow> EncodeRune r = [char_of r]"
  by (simp add: EncodeRune_def)

lemma byte_char_of: "n < 256 \<Longrightarrow> byte (char_of n) = n"
  by (simp add: byte_def)

lemma EncodeRune_high:
  assumes "128 \<le> r"
  shows "EncodeRune r \<noteq> [] \<and> (\<forall>d\<in>set (EncodeRune r). 128 \<le> byte d)"
proof -
  have a: "r \<le> 2047 \<Longrightarrow> r div 64 < 32" by simp
  have b: "r \<le> 65535 \<Longrightarrow> r div 4096 < 16" by simp
  have c: "r \<le> 1114111 \<Longrightarrow> r div 262144 < 5" by simp
  have m: "\<And>x::nat. x mod 64 < 64" by simp
  have k: "\<And>x. x < 128 \<Longrightarrow> byte (char_of (128 + x)) = 128 + x"
    by (simp add: byte_char_of)
  show ?thesis
    using assms a b c
    by (auto simp: EncodeRune_def byte_char_of k
             intro!: order_trans [OF _ eq_refl [OF byte_char_of [symmetric]]])
qed

lemma ToLower_Nil: "ToLower tbl [] = []"
  by (simp add: ToLower.simps)

lemma ToLower_Cons:
  "ToLower tbl (c # t) =
     EncodeRune (unicode_ToLower tbl (fst (DecodeRune (c # t)))) @
     ToLower tbl (drop (snd (DecodeRune (c # t))) (c # t))"
  by (subst ToLower.simps) simp

lemma HasPrefix_Nil: "HasPrefix s []"
  by (simp add: HasPrefix_def)

lemma HasPrefix_Cons: "HasPrefix s (a # q) \<longleftrightarrow> (\<exists>t. s = a # t \<and> HasPrefix t q)"
  by (cases s) (auto simp: HasPrefix_def)

lemma char_of_byte: "char_of (byte a) = a"
  by (simp add: byte_def)

lemma byte_eq_iff: "byte a = byte b \<longleftrightarrow> a = b"
  by (simp add: byte_def)

text \<open>An ASCII byte at the head of the lowered text is the lower case of the first rune.\<close>

lemma encoded_head:
  assumes "byte a < 128" and "HasPrefix (EncodeRune r @ X) (a # q)"
  shows "r = byte a \<and> HasPrefix X q"
proof (cases "r < 128")
  case True
  then have e: "EncodeRune r = [char_of r]" by (rule EncodeRune_ascii)
  with assms(2) have "char_of r = a" and p: "HasPrefix X q" by (auto simp: HasPrefix_Cons)
  then have "byte (char_of r) = byte a" by simp
  with True have "r = byte a" by (simp add: byte_char_of)
  with p show ?thesis by simp
next
  case False
  then have h: "EncodeRune r \<noteq> [] \<and> (\<forall>d\<in>set (EncodeRune r). 128 \<le> byte d)"
    using EncodeRune_high [of r] by simp
  then obtain d ds where e: "EncodeRune r = d # ds" by (cases "EncodeRune r") auto
  with h have "128 \<le> byte d" by simp
  moreover from assms(2) e have "d = a" by (simp add: HasPrefix_Cons)
  ultimately show ?thesis using assms(1) by simp
qed

lemma lowered_head:
  assumes "byte a < 128" and "HasPrefix (ToLower tbl s) (a # q)"
  shows "s \<noteq> [] \<and> unicode_ToLower tbl (fst (DecodeRune s)) = byte a
         \<and> HasPrefix (ToLower tbl (drop (snd (DecodeRune s)) s)) q"
proof (cases s)
  case Nil
  with assms(2) show ?thesis by (simp add: ToLower_Nil HasPrefix_Cons)
next
  case (Cons c t)
  with assms(2) have "HasPrefix (EncodeRune (unicode_ToLower tbl (fst (DecodeRune s))) @
      ToLower tbl (drop (snd (DecodeRune s)) s)) (a # q)"
    by (simp only: ToLower_Cons)
  from encoded_head [OF assms(1) this] Cons show ?thesis by simp
qed

lemma ascii_lower_fixed:
  assumes "r < 128" "unicode_ToLower tbl r = a" "a = 58 \<or> a = 47"
  shows "r = a"
  using assms by (auto simp: unicode_ToLower_def split: if_splits)

lemma ascii_lower_colon: "unicode_ToLower tbl 58 = 58"
  by (simp add: unicode_ToLower_def)

text \<open>A colon or a slash of the lowered text is that same byte of the text.\<close>

lemma lowered_separator:
  assumes tbl: "\<forall>r. 128 \<le> r \<longrightarrow> tbl r \<noteq> 58 \<and> tbl r \<noteq> 47"
      and a: "a = CHR '':'' \<or> a = CHR ''/''"
      and p: "HasPrefix (ToLower tbl s) (a # q)"
  shows "\<exists>t. s = a # t \<and> HasPrefix (ToLower tbl t) q"
proof -
  from a have ba: "byte a = 58 \<or> byte a = 47" by (auto simp: byte_def)
  then have lt: "byte a < 128" by auto
  from lowered_head [OF lt p] obtain c t where s: "s = c # t"
    and l: "unicode_ToLower tbl (fst (DecodeRune s)) = byte a"
    and r: "HasPrefix (ToLower tbl (drop (snd (DecodeRune s)) s)) q"
    by (cases s) auto
  from DecodeRune_chunk [of c t] show ?thesis
  proof
    assume low: "fst (DecodeRune (c # t)) < 128 \<and> DecodeRune (c # t) = (byte c, 1) \<and> byte c < 128"
    with l s have "unicode_ToLower tbl (byte c) = byte a" by simp
    with low ba have "byte c = byte a" using ascii_lower_fixed [of "byte c" tbl "byte a"] by simp
    then have "c = a" by (simp add: byte_eq_iff)
    with low r s show ?thesis by simp
  next
    assume "128 \<le> fst (DecodeRune (c # t)) \<and>
       (\<forall>d\<in>set (take (snd (DecodeRune (c # t))) (c # t)). 128 \<le> byte d)"
    then have h: "128 \<le> fst (DecodeRune s)" using s by simp
    then have "unicode_ToLower tbl (fst (DecodeRune s)) = tbl (fst (DecodeRune s))"
      by (simp add: unicode_ToLower_def)
    with l tbl h ba show ?thesis by metis
  qed
qed

text \<open>
  The text whose lower case is a given ASCII word: a prefix with no colon, followed by
  text whose lower case starts with what the lowered text goes on with.
\<close>

lemma lowered_word:
  assumes "\<forall>a\<in>set q. byte a < 128" and "CHR '':'' \<notin> set q"
      and "HasPrefix (ToLower tbl s) (q @ q2)"
  shows "\<exists>pre rest. s = pre @ rest \<and> ToLower tbl pre = q \<and> HasPrefix (ToLower tbl rest) q2
           \<and> CHR '':'' \<notin> set pre"
  using assms
proof (induction q arbitrary: s)
  case Nil
  then have "s = [] @ s \<and> ToLower tbl [] = [] \<and> HasPrefix (ToLower tbl s) q2 \<and> CHR '':'' \<notin> set []"
    by (simp add: ToLower_Nil)
  then show ?case by blast
next
  case (Cons a q)
  from Cons.prems have lt: "byte a < 128" and nc: "a \<noteq> CHR '':''" by auto
  from Cons.prems(3) have p: "HasPrefix (ToLower tbl s) (a # (q @ q2))" by simp
  let ?w = "snd (DecodeRune s)" and ?r = "fst (DecodeRune s)"
  from lowered_head [OF lt p] obtain c t where s: "s = c # t"
    and l: "unicode_ToLower tbl ?r = byte a"
    and r: "HasPrefix (ToLower tbl (drop ?w s)) (q @ q2)"
    by (cases s) auto
  from Cons.prems have q: "\<forall>a\<in>set q. byte a < 128" "CHR '':'' \<notin> set q" by auto
  from Cons.IH [OF q r] obtain pre' rest where
    d: "drop ?w s = pre' @ rest" and lp: "ToLower tbl pre' = q"
    and hr: "HasPrefix (ToLower tbl rest) q2" and np: "CHR '':'' \<notin> set pre'"
    by blast
  from s have w: "1 \<le> ?w" "?w \<le> length s" using DecodeRune_width [of s] by auto
  let ?pre = "take ?w s @ pre'"
  have split: "s = ?pre @ rest" using d by (metis append_assoc append_take_drop_id)
  from w s obtain t1 where tk: "take ?w s = c # t1" by (cases ?w) auto
  have len: "length (take ?w s) = ?w" using w by simp
  have loc: "DecodeRune (c # t1 @ pre') = DecodeRune s"
  proof -
    have "snd (DecodeRune ((c # t1 @ pre') @ rest)) \<le> length (c # t1 @ pre')"
      using split tk len by (metis append_Cons le_add1 length_append)
    from DecodeRune_local [OF this] show ?thesis using split tk by simp
  qed
  have dr: "drop ?w (c # t1 @ pre') = pre'"
    using len tk by (metis append_Cons append_eq_conv_conj)
  have "ToLower tbl ?pre = EncodeRune (byte a) @ ToLower tbl pre'"
    unfolding tk append_Cons by (subst ToLower_Cons) (simp only: loc l dr)
  with lt lp have low: "ToLower tbl ?pre = a # q"
    by (simp add: EncodeRune_ascii char_of_byte)
  have "CHR '':'' \<notin> set (take ?w s)"
    using DecodeRune_chunk [of c t]
  proof
    assume a1: "fst (DecodeRune (c # t)) < 128 \<and> DecodeRune (c # t) = (byte c, 1) \<and> byte c < 128"
    with s have one: "take ?w s = [c]" and rc: "?r = byte c" by simp_all
    have "c \<noteq> CHR '':''"
    proof
      assume "c = CHR '':''"
      then have "byte c = 58" by (simp add: byte_def)
      with l rc have "byte a = 58" by (simp add: ascii_lower_colon)
      then have "byte a = byte (CHR '':'')" by (simp add: byte_def)
      with nc show False by (simp add: byte_eq_iff)
    qed
    with one show ?thesis by simp
  next
    assume "128 \<le> fst (DecodeRune (c # t)) \<and>
       (\<forall>d\<in>set (take (snd (DecodeRune (c # t))) (c # t)). 128 \<le> byte d)"
    then have "\<forall>d\<in>set (take ?w s). 128 \<le> byte d" using s by simp
    moreover have "byte (CHR '':'') = 58" by (simp add: byte_def)
    ultimately show ?thesis by fastforce
  qed
  with np have "CHR '':'' \<notin> set ?pre" by simp
  with split low hr show ?case by blast
qed

lemma Index_after_prefix:
  assumes "CHR '':'' \<notin> set pre"
  shows "Index (pre @ ''://'' @ rest) ''://'' = Some (length pre)"
  using assms by (induction pre) (auto simp: HasPrefix_def)

text \<open>What the test of \<open>Parse\<close> says of the endpoint.\<close>

lemma scheme_split:
  assumes tbl: "\<forall>r. 128 \<le> r \<longrightarrow> tbl r \<noteq> 58 \<and> tbl r \<noteq> 47"
      and p: "p = ''unix'' \<or> p = ''tcp''"
      and h: "HasPrefix (ToLower tbl ep) (p @ ''://'')"
  shows "\<exists>scheme rest. ep = scheme @ ''://'' @ rest \<and> ToLower tbl scheme = p
           \<and> CHR '':'' \<notin> set scheme"
proof -
  from p have a: "\<forall>a\<in>set p. byte a < 128" and c: "CHR '':'' \<notin> set p"
    by (auto simp: byte_def)
  from lowered_word [OF a c h] obtain pre r0 where
    e: "ep = pre @ r0" and l: "ToLower tbl pre = p"
    and h0: "HasPrefix (ToLower tbl r0) ''://''" and n: "CHR '':'' \<notin> set pre"
    by blast
  from lowered_separator [OF tbl _ h0] obtain r1 where
    r0: "r0 = CHR '':'' # r1" and h1: "HasPrefix (ToLower tbl r1) ''//''" by auto
  from lowered_separator [OF tbl _ h1] obtain r2 where
    r1: "r1 = CHR ''/'' # r2" and h2: "HasPrefix (ToLower tbl r2) ''/''" by auto
  from lowered_separator [OF tbl _ h2] obtain r3 where
    r2: "r2 = CHR ''/'' # r3" by auto
  from e r0 r1 r2 have "ep = pre @ ''://'' @ r3" by simp
  with l n show ?thesis by blast
qed

lemma Parse_split:
  assumes "CHR '':'' \<notin> set scheme"
      and "HasPrefix (ToLower tbl (scheme @ ''://'' @ rest)) ''unix://''
           \<or> HasPrefix (ToLower tbl (scheme @ ''://'' @ rest)) ''tcp://''"
  shows "Parse tbl (scheme @ ''://'' @ rest) =
           (if rest = [] then Ok (Inl (''Invalid endpoint: '' @ scheme @ ''://'' @ rest))
            else Ok (Inr (scheme, rest)))"
proof -
  have i: "Index (scheme @ ''://'' @ rest) ''://'' = Some (length scheme)"
    using assms(1) by (rule Index_after_prefix)
  have "SplitN2 (scheme @ ''://'' @ rest) ''://'' = [scheme, rest]"
    unfolding SplitN2_def i by simp
  with assms(2) show ?thesis
    unfolding Parse_def by (simp add: Let_def)
qed

text \<open>
  C10: for every endpoint, and every case table in which no code point outside ASCII
  has a colon or a slash as lower case: when the lowered endpoint starts with "unix://"
  or "tcp://", the endpoint is a scheme without colon whose lower case is "unix" or
  "tcp", then "://", then a remainder, and \<open>Parse\<close> returns the scheme as written and the
  remainder, or the error "Invalid endpoint: ..." when the remainder is empty; every
  other endpoint, the empty one too, is returned as it is with the scheme "unix".
  \<open>Parse\<close> never panics.
\<close>

theorem Parse_endpoint:
  assumes "\<forall>r. 128 \<le> r \<longrightarrow> tbl r \<noteq> 58 \<and> tbl r \<noteq> 47"
  shows "if HasPrefix (ToLower tbl ep) ''unix://'' \<or> HasPrefix (ToLower tbl ep) ''tcp://''
         then \<exists>scheme rest.
                ep = scheme @ ''://'' @ rest
                \<and> CHR '':'' \<notin> set scheme
                \<and> (ToLower tbl scheme = ''unix'' \<or> ToLower tbl scheme = ''tcp'')
                \<and> Parse tbl ep =
                    (if rest = [] then Ok (Inl (''Invalid endpoint: '' @ ep))
                     else Ok (Inr (scheme, rest)))
         else Parse tbl ep = Ok (Inr (''unix'', ep))"
proof (cases "HasPrefix (ToLower tbl ep) ''unix://'' \<or> HasPrefix (ToLower tbl ep) ''tcp://''")
  case False
  then show ?thesis by (simp add: Parse_def)
next
  case True
  have u: "''unix://'' = ''unix'' @ ''://''" and t: "''tcp://'' = ''tcp'' @ ''://''" by simp_all
  from True have "\<exists>p. (p = ''unix'' \<or> p = ''tcp'') \<and> HasPrefix (ToLower tbl ep) (p @ ''://'')"
    unfolding u t by blast
  then obtain p where p: "p = ''unix'' \<or> p = ''tcp''"
    and h: "HasPrefix (ToLower tbl ep) (p @ ''://'')" by blast
  from scheme_split [OF assms p h] obtain scheme rest where
    e: "ep = scheme @ ''://'' @ rest" and l: "ToLower tbl scheme = p"
    and n: "CHR '':'' \<notin> set scheme" by blast
  from True have "Parse tbl (scheme @ ''://'' @ rest) =
           (if rest = [] then Ok (Inl (''Invalid endpoint: '' @ scheme @ ''://'' @ rest))
            else Ok (Inr (scheme, rest)))"
    unfolding e by (rule Parse_split [OF n])
  with e l n p have "ep = scheme @ ''://'' @ rest \<and> CHR '':'' \<notin> set scheme
                \<and> (ToLower tbl scheme = ''unix'' \<or> ToLower tbl scheme = ''tcp'')
                \<and> Parse tbl ep =
                    (if rest = [] then Ok (Inl (''Invalid endpoint: '' @ ep))
                     else Ok (Inr (scheme, rest)))"
    by auto
  then have "\<exists>scheme rest. ep = scheme @ ''://'' @ rest \<and> CHR '':'' \<notin> set scheme
                \<and> (ToLower tbl scheme = ''unix'' \<or> ToLower tbl scheme = ''tcp'')
                \<and> Parse tbl ep =
                    (if rest = [] then Ok (Inl (''Invalid endpoint: '' @ ep))
                     else Ok (Inr (scheme, rest)))"
    by blast
  with True show ?thesis by simp
qed

theorem Parse_endpoint_witness:
  "(\<exists>scheme rest. ''Unix:///csi/csi.sock'' = scheme @ ''://'' @ rest
      \<and> CHR '':'' \<notin> set scheme
      \<and> (ToLower tbl0 scheme = ''unix'' \<or> ToLower tbl0 scheme = ''tcp'')
      \<and> Parse tbl0 ''Unix:///csi/csi.sock'' =
           (if rest = [] then Ok (Inl (''Invalid endpoint: '' @ ''Unix:///csi/csi.sock''))
            else Ok (Inr (scheme, rest))))
   \<and> Parse tbl0 ''Unix:///csi/csi.sock'' = Ok (Inr (''Unix'', ''/csi/csi.sock''))
   \<and> Parse tbl0 ''tcp://'' = Ok (Inl ''Invalid endpoint: tcp://'')
   \<and> Parse tbl0 ''/csi/csi.sock'' = Ok (Inr (''unix'', ''/csi/csi.sock''))
   \<and> Parse tbl0 [] = Ok (Inr (''unix'', []))"
proof -
  have tbl: "\<forall>r. 128 \<le> r \<longrightarrow> tbl0 r \<noteq> 58 \<and> tbl0 r \<noteq> 47"
    by (simp add: tbl0_def)
  have a: "HasPrefix (ToLower tbl0 ''Unix:///csi/csi.sock'') ''unix://''"
    by code_simp
  have b: "\<not> (HasPrefix (ToLower tbl0 ''/csi/csi.sock'') ''unix://''
              \<or> HasPrefix (ToLower tbl0 ''/csi/csi.sock'') ''tcp://'')"
    by code_simp
  have c: "\<not> (HasPrefix (ToLower tbl0 []) ''unix://'' \<or> HasPrefix (ToLower tbl0 []) ''tcp://'')"
    by code_simp
  have v: "Parse tbl0 ''Unix:///csi/csi.sock'' = Ok (Inr (''Unix'', ''/csi/csi.sock''))"
    by code_simp
  have i: "Parse tbl0 ''tcp://'' = Ok (Inl ''Invalid endpoint: tcp://'')"
    by code_simp
  from Parse_endpoint [OF tbl, of "''Unix:///csi/csi.sock''"] a
  have 1: "\<exists>scheme rest. ''Unix:///csi/csi.sock'' = scheme @ ''://'' @ rest
      \<and> CHR '':'' \<notin> set scheme
      \<and> (ToLower tbl0 scheme = ''unix'' \<or> ToLower tbl0 scheme = ''tcp'')
      \<and> Parse tbl0 ''Unix:///csi/csi.sock'' =
           (if rest = [] then Ok (Inl (''Invalid endpoint: '' @ ''Unix:///csi/csi.sock''))
            else Ok (Inr (scheme, rest)))"
    by (simp only: if_True simp_thms)
  from Parse_endpoint [OF tbl, of "''/csi/csi.sock''"] b
  have 2: "Parse tbl0 ''/csi/csi.sock'' = Ok (Inr (''unix'', ''/csi/csi.sock''))"
    by (simp only: if_False simp_thms)
  from Parse_endpoint [OF tbl, of "[]"] c
  have 3: "Parse tbl0 [] = Ok (Inr (''unix'', []))"
    by (simp only: if_False simp_thms)
  from 1 2 3 v i show ?thesis by blast
qed

end
